theory Spec2Isabelle
  imports Main "HOL-Library.Word"
begin

section \<open>The JPEG bridge of libavif's tools: apps/shared/avifjpeg.c\<close>

text \<open>
  The source file holds two public functions, \<^verbatim>\<open>avifJPEGRead\<close> and \<^verbatim>\<open>avifJPEGWrite\<close>, the
  static helper \<^verbatim>\<open>avifRGBAToRGB\<close> and the error callback \<^verbatim>\<open>my_error_exit\<close>. They are
  embedded as functions on an explicit state: the local variables of the C function, the
  image the caller passed by pointer, and a \<open>world\<close> holding the heap, the file system, the
  open file handles, the live codec sessions and the list of calls made to the outside.

  Integers follow the LP64 data model: \<^verbatim>\<open>uint32_t\<close>, \<^verbatim>\<open>unsigned int\<close> and \<^verbatim>\<open>JDIMENSION\<close> are
  \<open>32 word\<close>, \<^verbatim>\<open>size_t\<close> is wider than any size that occurs and is a \<open>nat\<close>, a byte is
  an \<open>8 word\<close>.
\<close>

subsection \<open>Machine types and enumerations\<close>

type_synonym byte = "8 word"
type_synonym uint32 = "32 word"

datatype avifPixelFormat =
    AVIF_PIXEL_FORMAT_NONE
  | AVIF_PIXEL_FORMAT_YUV444
  | AVIF_PIXEL_FORMAT_YUV422
  | AVIF_PIXEL_FORMAT_YUV420
  | AVIF_PIXEL_FORMAT_YUV400

datatype avifRGBFormat =
    AVIF_RGB_FORMAT_RGB
  | AVIF_RGB_FORMAT_RGBA
  | AVIF_RGB_FORMAT_ARGB
  | AVIF_RGB_FORMAT_BGR
  | AVIF_RGB_FORMAT_BGRA
  | AVIF_RGB_FORMAT_ABGR

datatype avifChromaUpsampling =
    AVIF_CHROMA_UPSAMPLING_AUTOMATIC
  | AVIF_CHROMA_UPSAMPLING_FASTEST
  | AVIF_CHROMA_UPSAMPLING_BEST_QUALITY
  | AVIF_CHROMA_UPSAMPLING_NEAREST
  | AVIF_CHROMA_UPSAMPLING_BILINEAR

datatype J_COLOR_SPACE =
    JCS_UNKNOWN
  | JCS_GRAYSCALE
  | JCS_RGB
  | JCS_YCbCr
  | JCS_CMYK
  | JCS_YCCK
  | JCS_EXT_RGBX

subsection \<open>Control flow of a C function body\<close>

text \<open>
  A statement either falls through to the next one (\<open>Next\<close>), executes \<^verbatim>\<open>goto cleanup\<close>,
  leaves through \<^verbatim>\<open>longjmp\<close> (the state is the memory at the time of the jump), or
  accesses memory out of bounds or through a null pointer (\<open>Fault\<close>: the behaviour of
  the C program is undefined from there on). \<open>run\<close> is sequential composition.
\<close>

datatype 's flow = Next 's | Goto_cleanup 's | Longjmp 's | Fault

fun run :: "('s \<Rightarrow> 's flow) list \<Rightarrow> 's \<Rightarrow> 's flow" where
  "run [] s = Next s"
| "run (c # cs) s =
     (case c s of
        Next s' \<Rightarrow> run cs s'
      | Goto_cleanup s' \<Rightarrow> Goto_cleanup s'
      | Longjmp s' \<Rightarrow> Longjmp s'
      | Fault \<Rightarrow> Fault)"

text \<open>
  A counted \<^verbatim>\<open>for (k = i; k < i + n; ++k)\<close> loop whose body may fault: \<open>n\<close> iterations
  starting at index \<open>i\<close>.
\<close>

primrec for_loop :: "nat \<Rightarrow> nat \<Rightarrow> (nat \<Rightarrow> 's \<Rightarrow> 's option) \<Rightarrow> 's \<Rightarrow> 's option" where
  "for_loop 0 i body s = Some s"
| "for_loop (Suc n) i body s =
     (case body i s of None \<Rightarrow> None | Some s' \<Rightarrow> for_loop n (Suc i) body s')"

subsection \<open>The world outside the function\<close>

text \<open>
  A JPEG stream is kept as the sequence of its segments, in the order in which the codec
  emitted them: the frame header with the dimensions, the ICC profile marker, one entry
  for each scanline handed to the compressor, and the trailer.
\<close>

datatype segment =
    Frame_header uint32 uint32
  | ICC_marker "byte list"
  | Scan_data "byte list"
  | End_of_image

datatype fmode = RB | WB

datatype call =
    Fopen string fmode
  | Fclose string
  | Output_message
  | Jpeg_create_decompress
  | Setup_read_icc_profile
  | Jpeg_stdio_src
  | Jpeg_read_header
  | Jpeg_start_decompress J_COLOR_SPACE
  | Alloc_sarray
  | Read_icc_profile
  | Jpeg_read_scanlines nat
  | Jpeg_finish_decompress
  | Jpeg_destroy_decompress
  | Jpeg_create_compress
  | Jpeg_stdio_dest
  | Jpeg_start_compress J_COLOR_SPACE int
  | Write_icc_profile
  | Jpeg_write_scanlines nat
  | Jpeg_finish_compress
  | Jpeg_destroy_compress
  | Avif_image_yuv_to_rgb avifRGBFormat
  | Avif_rgb_image_premultiply_alpha
  | Avif_image_rgb_to_yuv

record world =
  heap :: "nat \<Rightarrow> byte list option"
  brk :: nat
  junk :: "nat \<Rightarrow> byte"
  files :: "string \<Rightarrow> segment list option"
  can_open :: "string \<Rightarrow> fmode \<Rightarrow> bool"
  handles :: "string list"
  sessions :: nat
  calls :: "call list"

text \<open>
  \<open>heap\<close> maps the address of every live block to its bytes; \<open>brk\<close> is the next address
  \<^verbatim>\<open>malloc\<close> hands out; \<open>junk\<close> gives the bytes found in freshly allocated memory, which
  \<^verbatim>\<open>malloc\<close> does not initialise. \<open>handles\<close> lists the open \<^verbatim>\<open>FILE\<close> handles (a handle is
  identified with the name of its file), \<open>sessions\<close> counts the codec sessions that hold
  resources, and \<open>calls\<close> records the calls to the C library, the codec and the
  conversion functions, oldest first. The call of \<^verbatim>\<open>jpeg_start_decompress\<close> is recorded
  with the output colour space set at that moment, the call of \<^verbatim>\<open>jpeg_start_compress\<close>
  with the input colour space and the number of input components, the call of
  \<^verbatim>\<open>avifImageYUVToRGB\<close> with the format of the buffer it is asked to fill.
\<close>

definition note_call :: "call \<Rightarrow> world \<Rightarrow> world" where
  "note_call c w = w\<lparr>calls := calls w @ [c]\<rparr>"

definition avifAlloc :: "nat \<Rightarrow> world \<Rightarrow> nat \<times> world" where
  "avifAlloc n w =
     (brk w, w\<lparr>heap := (heap w)(brk w \<mapsto> map (junk w) [0..<n]), brk := Suc (brk w)\<rparr>)"

definition avifFree :: "nat \<Rightarrow> world \<Rightarrow> world" where
  "avifFree a w = w\<lparr>heap := (heap w)(a := None)\<rparr>"

definition peek :: "nat option \<Rightarrow> nat \<Rightarrow> nat \<Rightarrow> world \<Rightarrow> byte list option" where
  "peek p off n w =
     (case p of
        None \<Rightarrow> None
      | Some a \<Rightarrow>
          (case heap w a of
             None \<Rightarrow> None
           | Some b \<Rightarrow> if off + n \<le> length b then Some (take n (drop off b)) else None))"

definition poke :: "nat option \<Rightarrow> nat \<Rightarrow> byte list \<Rightarrow> world \<Rightarrow> world option" where
  "poke p off bs w =
     (case p of
        None \<Rightarrow> None
      | Some a \<Rightarrow>
          (case heap w a of
             None \<Rightarrow> None
           | Some b \<Rightarrow>
               if off + length bs \<le> length b
               then Some (w\<lparr>heap := (heap w)(a \<mapsto> take off b @ bs @ drop (off + length bs) b)\<rparr>)
               else None))"

text \<open>
  \<^verbatim>\<open>memcpy(dst, src, n)\<close>: the \<open>n\<close> source bytes are read, then written. A pointer is a
  block address (or null) and an offset into the block. Source and destination may lie in
  the same block; the bytes are read before any is written.
\<close>

definition memcpy :: "nat option \<times> nat \<Rightarrow> nat option \<times> nat \<Rightarrow> nat \<Rightarrow> world \<Rightarrow> world option" where
  "memcpy dst src n w =
     (case peek (fst src) (snd src) n w of
        None \<Rightarrow> None
      | Some bs \<Rightarrow> poke (fst dst) (snd dst) bs w)"

definition fopen :: "string \<Rightarrow> fmode \<Rightarrow> world \<Rightarrow> string option \<times> world" where
  "fopen name m w =
     (let w1 = note_call (Fopen name m) w in
      if can_open w name m
      then (Some name,
            w1\<lparr>handles := name # handles w1,
                files := (if m = WB then (files w1)(name \<mapsto> []) else files w1)\<rparr>)
      else (None, w1))"

definition fclose :: "string \<Rightarrow> world \<Rightarrow> world" where
  "fclose name w = (note_call (Fclose name) w)\<lparr>handles := remove1 name (handles w)\<rparr>"

definition contents :: "world \<Rightarrow> string \<Rightarrow> segment list" where
  "contents w name = (case files w name of None \<Rightarrow> [] | Some segs \<Rightarrow> segs)"

definition emit :: "string option \<Rightarrow> segment \<Rightarrow> world \<Rightarrow> world" where
  "emit dest seg w =
     (case dest of
        None \<Rightarrow> w
      | Some name \<Rightarrow> w\<lparr>files := (files w)(name \<mapsto> contents w name @ [seg])\<rparr>)"

subsection \<open>Images\<close>

text \<open>
  \<^verbatim>\<open>avifRGBImage\<close> and \<^verbatim>\<open>avifImage\<close> are declared in avif.h. Of \<^verbatim>\<open>avifImage\<close> the bridge
  touches the fields below; the pixel planes are only ever passed on to the conversion
  functions and are kept as one opaque value (\<open>None\<close>: no plane allocated). The ICC
  profile, an \<^verbatim>\<open>avifRWData\<close> of a data pointer and a size, is the list of its bytes: the
  empty list is the state with a null pointer and size 0.
\<close>

record avifRGBImage =
  width :: uint32
  height :: uint32
  depth :: uint32
  format :: avifRGBFormat
  chromaUpsampling :: avifChromaUpsampling
  ignoreAlpha :: bool
  alphaPremultiplied :: bool
  pixels :: "nat option"
  rowBytes :: uint32

record avifImage =
  width :: uint32
  height :: uint32
  depth :: uint32
  yuvFormat :: avifPixelFormat
  alphaPremultiplied :: bool
  icc :: "byte list"
  yuvPlanes :: "byte list option"

text \<open>
  Modelled from the spec: \<^verbatim>\<open>avifRGBImageSetDefaults\<close>, \<^verbatim>\<open>avifRGBImagePixelSize\<close>,
  \<^verbatim>\<open>avifRGBImageAllocatePixels\<close> and \<^verbatim>\<open>avifRGBImageFreePixels\<close> live in the library, not
  in this file. The spec's data model gives an interleaved pixel buffer the width and
  height of the image, a row stride of width times channel count (3 bytes a pixel for
  RGB, 4 for RGBA, at depth 8) and a capacity of row stride times height; a buffer is
  released explicitly.
\<close>

definition avifRGBImageSetDefaults :: "avifImage \<Rightarrow> avifRGBImage" where
  "avifRGBImageSetDefaults img =
     \<lparr>avifRGBImage.width = avifImage.width img,
      avifRGBImage.height = avifImage.height img,
      avifRGBImage.depth = avifImage.depth img,
      format = AVIF_RGB_FORMAT_RGBA,
      chromaUpsampling = AVIF_CHROMA_UPSAMPLING_AUTOMATIC,
      ignoreAlpha = False,
      avifRGBImage.alphaPremultiplied = False,
      pixels = None,
      rowBytes = 0\<rparr>"

definition avifRGBImagePixelSize :: "avifRGBImage \<Rightarrow> uint32" where
  "avifRGBImagePixelSize r =
     (if format r = AVIF_RGB_FORMAT_RGB \<or> format r = AVIF_RGB_FORMAT_BGR then 3 else 4)
       * (if 8 < avifRGBImage.depth r then 2 else 1)"

definition avifRGBImageAllocatePixels :: "avifRGBImage \<Rightarrow> world \<Rightarrow> avifRGBImage \<times> world" where
  "avifRGBImageAllocatePixels r w =
     (let w1 = (case pixels r of None \<Rightarrow> w | Some a \<Rightarrow> avifFree a w);
          rb = avifRGBImage.width r * avifRGBImagePixelSize r;
          (a, w2) = avifAlloc (unat rb * unat (avifRGBImage.height r)) w1
      in (r\<lparr>rowBytes := rb, pixels := Some a\<rparr>, w2))"

definition avifRGBImageFreePixels :: "avifRGBImage \<Rightarrow> world \<Rightarrow> avifRGBImage \<times> world" where
  "avifRGBImageFreePixels r w =
     (r\<lparr>pixels := None, rowBytes := 0\<rparr>,
      case pixels r of None \<Rightarrow> w | Some a \<Rightarrow> avifFree a w)"

text \<open>
  The conversion functions of the library are parameters of the bridge. Each is given by
  what it computes: the bytes \<^verbatim>\<open>avifImageYUVToRGB\<close> stores into the pixel block (\<open>None\<close>:
  it returns an error), the bytes \<^verbatim>\<open>avifRGBImagePremultiplyAlpha\<close> leaves in the block it
  works on in place, and the planes \<^verbatim>\<open>avifImageRGBToYUV\<close> produces.
\<close>

record avif_library =
  avifImageYUVToRGB :: "avifImage \<Rightarrow> avifRGBImage \<Rightarrow> byte list option"
  avifRGBImagePremultiplyAlpha :: "avifRGBImage \<Rightarrow> byte list \<Rightarrow> byte list option"
  avifImageRGBToYUV :: "avifImage \<Rightarrow> avifRGBImage \<Rightarrow> byte list \<Rightarrow> byte list option"

subsection \<open>avifRGBAToRGB (lines 119 to 137)\<close>

text \<open>
  The body of the inner loop: \<^verbatim>\<open>srcRow\<close> and \<^verbatim>\<open>dstRow\<close> are both taken from
  \<^verbatim>\<open>src->pixels\<close>, at \<^verbatim>\<open>j * src->rowBytes\<close> and \<^verbatim>\<open>j * dst->rowBytes\<close>; the pixel
  pointers add \<^verbatim>\<open>i * 4\<close> and \<^verbatim>\<open>i * 3\<close>. The products are computed in \<^verbatim>\<open>uint32_t\<close>.
\<close>

definition copy_pixel :: "avifRGBImage \<Rightarrow> avifRGBImage \<Rightarrow> nat \<Rightarrow> nat \<Rightarrow> world \<Rightarrow> world option" where
  "copy_pixel src dst j i w =
     (let srcRow = (pixels src, unat (of_nat j * rowBytes src));
          dstRow = (pixels src, unat (of_nat j * rowBytes dst));
          srcPixel = (fst srcRow, snd srcRow + unat (of_nat i * (4 :: uint32)));
          dstPixel = (fst dstRow, snd dstRow + unat (of_nat i * (3 :: uint32)))
      in memcpy dstPixel srcPixel 3 w)"

definition avifRGBAToRGB :: "avifRGBImage \<Rightarrow> avifRGBImage \<Rightarrow> world \<Rightarrow> (avifRGBImage \<times> world) option" where
  "avifRGBAToRGB src dst0 w0 =
     (let dst1 = dst0\<lparr>avifRGBImage.width := avifRGBImage.width src,
                      avifRGBImage.height := avifRGBImage.height src,
                      format := AVIF_RGB_FORMAT_RGB,
                      avifRGBImage.depth := 8\<rparr>;
          (dst, w1) = avifRGBImageAllocatePixels dst1 w0
      in map_option (Pair dst)
           (for_loop (unat (avifRGBImage.height src)) 0
              (\<lambda>j. for_loop (unat (avifRGBImage.width src)) 0 (copy_pixel src dst j)) w1))"

text \<open>
  What the helper is for, in the words of the spec: the buffer obtained by dropping the
  alpha byte of every 4-byte pixel.
\<close>

fun drop_alpha :: "byte list \<Rightarrow> byte list" where
  "drop_alpha (r # g # b # a # rest) = r # g # b # drop_alpha rest"
| "drop_alpha rest = []"

subsection \<open>avifJPEGWrite (lines 140 to 233)\<close>

text \<open>
  Of \<^verbatim>\<open>struct jpeg_compress_struct\<close> (jpeglib.h) the function uses the fields below;
  \<open>mem\<close> stands for the session's memory manager, present once the session holds
  resources, and \<open>dest\<close> for the destination installed by \<^verbatim>\<open>jpeg_stdio_dest\<close>.
\<close>

record jpeg_compress_struct =
  mem :: bool
  dest :: "string option"
  image_width :: uint32
  image_height :: uint32
  input_components :: int
  in_color_space :: J_COLOR_SPACE
  next_scanline :: uint32

record wr =
  ret :: bool
  fp :: "string option"
  cinfo :: jpeg_compress_struct
  rgb :: avifRGBImage
  rgbPremultiplied :: avifRGBImage
  world :: world

definition zero_rgb :: avifRGBImage where
  "zero_rgb =
     \<lparr>avifRGBImage.width = 0, avifRGBImage.height = 0, avifRGBImage.depth = 0,
      format = AVIF_RGB_FORMAT_RGB, chromaUpsampling = AVIF_CHROMA_UPSAMPLING_AUTOMATIC,
      ignoreAlpha = False, avifRGBImage.alphaPremultiplied = False,
      pixels = None, rowBytes = 0\<rparr>"

text \<open>
  The locals at entry. \<^verbatim>\<open>ret\<close> and \<^verbatim>\<open>f\<close> are initialised by the source; the structs
  are not, and every field of them is assigned before it is read.
\<close>

definition wr_entry :: "world \<Rightarrow> wr" where
  "wr_entry w0 =
     \<lparr>ret = False, fp = None,
      cinfo = \<lparr>mem = False, dest = None, image_width = 0, image_height = 0,
               input_components = 0, in_color_space = JCS_UNKNOWN, next_scanline = 0\<rparr>,
      rgb = zero_rgb, rgbPremultiplied = zero_rgb, world = w0\<rparr>"

text \<open>Line 149. No error handler of the bridge is installed on the encode session.\<close>

definition jpeg_create_compress :: "wr \<Rightarrow> wr flow" where
  "jpeg_create_compress s =
     Next (s\<lparr>cinfo := (cinfo s)\<lparr>mem := True\<rparr>,
             world := note_call Jpeg_create_compress
                        ((world s)\<lparr>sessions := Suc (sessions (world s))\<rparr>)\<rparr>)"

text \<open>Lines 151 to 161: both buffers get the defaults, \<^verbatim>\<open>rgb\<close> is configured and allocated.\<close>

definition request_rgb :: "avifImage \<Rightarrow> avifChromaUpsampling \<Rightarrow> wr \<Rightarrow> wr flow" where
  "request_rgb img cu s =
     (let r0 = avifRGBImageSetDefaults img;
          p0 = avifRGBImageSetDefaults img;
          r1 = r0\<lparr>format := (if avifImage.alphaPremultiplied img
                              then AVIF_RGB_FORMAT_RGB else AVIF_RGB_FORMAT_RGBA),
                  chromaUpsampling := cu,
                  avifRGBImage.depth := 8,
                  avifRGBImage.alphaPremultiplied := True\<rparr>;
          (r2, w1) = avifRGBImageAllocatePixels r1 (world s)
      in Next (s\<lparr>rgb := r2, rgbPremultiplied := p0, world := w1\<rparr>))"

text \<open>
  The library fills the block it is given: the bytes it computes overwrite the block
  from its start and never extend it.
\<close>

definition fill :: "nat \<Rightarrow> byte list \<Rightarrow> world \<Rightarrow> world" where
  "fill a bs w =
     (case heap w a of
        None \<Rightarrow> w
      | Some b \<Rightarrow> w\<lparr>heap := (heap w)(a \<mapsto> take (length b) bs @ drop (length bs) b)\<rparr>)"

text \<open>Lines 162 to 165.\<close>

definition convert_to_rgb :: "avif_library \<Rightarrow> avifImage \<Rightarrow> wr \<Rightarrow> wr flow" where
  "convert_to_rgb lib img s =
     (let w1 = note_call (Avif_image_yuv_to_rgb (format (rgb s))) (world s) in
      case pixels (rgb s) of
        None \<Rightarrow> Goto_cleanup (s\<lparr>world := w1\<rparr>)
      | Some a \<Rightarrow>
          (case avifImageYUVToRGB lib img (rgb s) of
             None \<Rightarrow> Goto_cleanup (s\<lparr>world := w1\<rparr>)
           | Some bs \<Rightarrow> Next (s\<lparr>world := fill a bs w1\<rparr>)))"

text \<open>
  Lines 168 to 177, compiled only when \<^verbatim>\<open>JCS_ALPHA_EXTENSIONS\<close> is not defined. The
  compile-time switch is the boolean \<open>ext\<close>.
\<close>

definition alpha_fallback :: "avif_library \<Rightarrow> bool \<Rightarrow> avifImage \<Rightarrow> wr \<Rightarrow> wr flow" where
  "alpha_fallback lib ext img s =
     (if \<not> ext \<and> \<not> avifImage.alphaPremultiplied img then
        (let w1 = note_call Avif_rgb_image_premultiply_alpha (world s) in
         case pixels (rgb s) of
           None \<Rightarrow> Goto_cleanup (s\<lparr>world := w1\<rparr>)
         | Some a \<Rightarrow>
             (case heap w1 a of
                None \<Rightarrow> Fault
              | Some b \<Rightarrow>
                  (case avifRGBImagePremultiplyAlpha lib (rgb s) b of
                     None \<Rightarrow> Goto_cleanup (s\<lparr>world := w1\<rparr>)
                   | Some bs \<Rightarrow>
                       (case avifRGBAToRGB (rgb s) (rgbPremultiplied s) (fill a bs w1) of
                          None \<Rightarrow> Fault
                        | Some (dst, w2) \<Rightarrow>
                            (let (r, w3) = avifRGBImageFreePixels (rgb s) w2
                             in Next (s\<lparr>rgb := r, rgbPremultiplied := dst, world := w3\<rparr>))))))
      else Next s)"

text \<open>Lines 179 to 183.\<close>

definition open_output :: "string \<Rightarrow> wr \<Rightarrow> wr flow" where
  "open_output outputFilename s =
     (let (h, w1) = fopen outputFilename WB (world s)
      in case h of
           None \<Rightarrow> Goto_cleanup (s\<lparr>fp := None, world := w1\<rparr>)
         | Some name \<Rightarrow> Next (s\<lparr>fp := Some name, world := w1\<rparr>))"

text \<open>
  Lines 185 to 197. Both branches of the conditional compilation set 3 input components;
  they differ in the colour space. \<^verbatim>\<open>jpeg_start_compress\<close> emits the frame header.
\<close>

definition configure :: "bool \<Rightarrow> avifImage \<Rightarrow> int \<Rightarrow> wr \<Rightarrow> wr flow" where
  "configure ext img jpegQuality s =
     (let c = (cinfo s)\<lparr>dest := fp s,
                        image_width := avifImage.width img,
                        image_height := avifImage.height img,
                        input_components := 3,
                        in_color_space := (if ext then JCS_EXT_RGBX else JCS_RGB),
                        next_scanline := 0\<rparr>;
          w1 = note_call Jpeg_stdio_dest (world s);
          w2 = emit (dest c) (Frame_header (image_width c) (image_height c)) w1
      in Next (s\<lparr>cinfo := c,
                 world := note_call (Jpeg_start_compress (in_color_space c) (input_components c)) w2\<rparr>))"

text \<open>
  Lines 199 to 201. The size is passed as \<^verbatim>\<open>(unsigned int)avif->icc.size\<close>, a
  conversion of the \<^verbatim>\<open>size_t\<close> to 32 bits: the marker writer is given the data pointer
  and the converted length.

  Modelled from the spec: \<^verbatim>\<open>write_icc_profile\<close> (iccjpeg.c) is not in this file; the spec
  treats it as the function that injects raw profile bytes into an encode context.
\<close>

definition write_icc_profile :: "string option \<Rightarrow> byte list \<Rightarrow> uint32 \<Rightarrow> world \<Rightarrow> world" where
  "write_icc_profile d icc_data icc_data_len w =
     note_call Write_icc_profile (emit d (ICC_marker (take (unat icc_data_len) icc_data)) w)"

definition embed_icc :: "avifImage \<Rightarrow> wr \<Rightarrow> wr flow" where
  "embed_icc img s =
     (if icc img \<noteq> [] \<and> 0 < length (icc img)
      then Next (s\<lparr>world := write_icc_profile (dest (cinfo s)) (icc img)
                               (of_nat (length (icc img))) (world s)\<rparr>)
      else Next s)"

text \<open>
  \<^verbatim>\<open>jpeg_write_scanlines(&cinfo, row_pointer, 1)\<close>: the codec reads one row of
  \<^verbatim>\<open>image_width * input_components\<close> samples at \<^verbatim>\<open>row_pointer[0]\<close> and advances
  \<^verbatim>\<open>next_scanline\<close> by one.
\<close>

definition jpeg_write_scanlines :: "nat option \<times> nat \<Rightarrow> wr \<Rightarrow> wr flow" where
  "jpeg_write_scanlines row_pointer s =
     (let c = cinfo s in
      case peek (fst row_pointer) (snd row_pointer)
             (unat (image_width c) * nat (input_components c)) (world s) of
        None \<Rightarrow> Fault
      | Some samples \<Rightarrow>
          Next (s\<lparr>cinfo := c\<lparr>next_scanline := next_scanline c + 1\<rparr>,
                  world := note_call (Jpeg_write_scanlines (unat (next_scanline c)))
                             (emit (dest c) (Scan_data samples) (world s))\<rparr>))"

lemma unat_inc: "(n :: uint32) < h \<Longrightarrow> unat (n + 1) = Suc (unat n)"
proof -
  assume lt: "n < h"
  have "1 + n \<noteq> 0"
  proof
    assume "1 + n = 0"
    then have "n = - 1"
      by (simp add: add_eq_0_iff)
    with lt show False
      by simp
  qed
  then show ?thesis
    by (simp add: unatSuc add.commute)
qed

lemma jpeg_write_scanlines_Next:
  "jpeg_write_scanlines p s = Next s' \<Longrightarrow>
     next_scanline (cinfo s') = next_scanline (cinfo s) + 1 \<and>
     image_height (cinfo s') = image_height (cinfo s)"
  by (auto simp: jpeg_write_scanlines_def Let_def split: option.splits)

text \<open>
  The three \<^verbatim>\<open>while (cinfo.next_scanline < cinfo.image_height)\<close> loops of lines 203 to
  220 differ only in the buffer the row pointer is taken from.
\<close>

function write_rows :: "(wr \<Rightarrow> avifRGBImage) \<Rightarrow> wr \<Rightarrow> wr flow" where
  "write_rows buf s =
     (if next_scanline (cinfo s) < image_height (cinfo s) then
        (case jpeg_write_scanlines
                (pixels (buf s), unat (next_scanline (cinfo s) * rowBytes (buf s))) s of
           Next s' \<Rightarrow> write_rows buf s'
         | Goto_cleanup s' \<Rightarrow> Goto_cleanup s'
         | Longjmp s' \<Rightarrow> Longjmp s'
         | Fault \<Rightarrow> Fault)
      else Next s)"
  by pat_completeness auto
termination
proof (relation "measure (\<lambda>(buf, s). unat (image_height (cinfo s)) - unat (next_scanline (cinfo s)))")
  show "wf (measure (\<lambda>(buf, s). unat (image_height (cinfo s)) - unat (next_scanline (cinfo s))))"
    by simp
next
  fix buf :: "wr \<Rightarrow> avifRGBImage" and s s' :: wr
  assume lt: "next_scanline (cinfo s) < image_height (cinfo s)"
    and step: "jpeg_write_scanlines
                 (pixels (buf s), unat (next_scanline (cinfo s) * rowBytes (buf s))) s = Next s'"
  from lt have "unat (next_scanline (cinfo s)) < unat (image_height (cinfo s))"
    by (simp add: word_less_nat_alt)
  moreover from lt have "unat (next_scanline (cinfo s) + 1) = Suc (unat (next_scanline (cinfo s)))"
    by (rule unat_inc)
  ultimately show "((buf, s'), (buf, s)) \<in>
      measure (\<lambda>(buf, s). unat (image_height (cinfo s)) - unat (next_scanline (cinfo s)))"
    using jpeg_write_scanlines_Next [OF step] by simp
qed

declare write_rows.simps [simp del]

definition pump_rows :: "bool \<Rightarrow> avifImage \<Rightarrow> wr \<Rightarrow> wr flow" where
  "pump_rows ext img s =
     (if ext then write_rows rgb s
      else if avifImage.alphaPremultiplied img then write_rows rgb s
      else write_rows rgbPremultiplied s)"

text \<open>Lines 222 to 224.\<close>

definition jpeg_finish_compress :: "wr \<Rightarrow> wr flow" where
  "jpeg_finish_compress s =
     Next (s\<lparr>ret := True,
             world := note_call Jpeg_finish_compress
                        (emit (dest (cinfo s)) End_of_image (world s))\<rparr>)"

text \<open>Lines 225 to 232: the label \<^verbatim>\<open>cleanup\<close> and the return.\<close>

definition jpeg_destroy_compress :: "jpeg_compress_struct \<Rightarrow> world \<Rightarrow> world" where
  "jpeg_destroy_compress c w =
     note_call Jpeg_destroy_compress (if mem c then w\<lparr>sessions := sessions w - 1\<rparr> else w)"

definition wr_cleanup :: "wr \<Rightarrow> bool \<times> world" where
  "wr_cleanup s =
     (let w1 = (case fp s of None \<Rightarrow> world s | Some name \<Rightarrow> fclose name (world s));
          w2 = jpeg_destroy_compress (cinfo s) w1;
          (r, w3) = avifRGBImageFreePixels (rgb s) w2;
          (p, w4) = avifRGBImageFreePixels (rgbPremultiplied s) w3
      in (ret s, w4))"

text \<open>
  The body falls into the statements up to line 177, which prepare the pixel buffer, and
  those from line 179 on, which open the destination and drive the codec.
\<close>

definition conversion_steps ::
  "avif_library \<Rightarrow> bool \<Rightarrow> avifImage \<Rightarrow> avifChromaUpsampling \<Rightarrow> (wr \<Rightarrow> wr flow) list" where
  "conversion_steps lib ext img cu =
     [jpeg_create_compress,
      request_rgb img cu,
      convert_to_rgb lib img,
      alpha_fallback lib ext img]"

definition output_steps :: "bool \<Rightarrow> string \<Rightarrow> avifImage \<Rightarrow> int \<Rightarrow> (wr \<Rightarrow> wr flow) list" where
  "output_steps ext outputFilename img jpegQuality =
     [open_output outputFilename,
      configure ext img jpegQuality,
      embed_icc img,
      pump_rows ext img,
      jpeg_finish_compress]"

definition avifJPEGWrite_body ::
  "avif_library \<Rightarrow> bool \<Rightarrow> string \<Rightarrow> avifImage \<Rightarrow> int \<Rightarrow> avifChromaUpsampling \<Rightarrow> wr \<Rightarrow> wr flow" where
  "avifJPEGWrite_body lib ext outputFilename img jpegQuality cu =
     run (conversion_steps lib ext img cu @ output_steps ext outputFilename img jpegQuality)"

text \<open>
  The function returns \<^verbatim>\<open>ret\<close> after the cleanup; \<open>None\<close> stands for an execution with
  undefined behaviour.
\<close>

definition avifJPEGWrite ::
  "avif_library \<Rightarrow> bool \<Rightarrow> string \<Rightarrow> avifImage \<Rightarrow> int \<Rightarrow> avifChromaUpsampling \<Rightarrow> world
     \<Rightarrow> (bool \<times> world) option" where
  "avifJPEGWrite lib ext outputFilename img jpegQuality cu w0 =
     (case avifJPEGWrite_body lib ext outputFilename img jpegQuality cu (wr_entry w0) of
        Next s \<Rightarrow> Some (wr_cleanup s)
      | Goto_cleanup s \<Rightarrow> Some (wr_cleanup s)
      | Longjmp s \<Rightarrow> None
      | Fault \<Rightarrow> None)"

subsection \<open>avifJPEGRead (lines 42 to 115)\<close>

text \<open>
  What the codec does with one JPEG stream is a parameter: at which calls it reports a
  fatal error through the \<^verbatim>\<open>error_exit\<close> callback, the dimensions and the colour space
  of the frame, the embedded ICC profile if there is one, and the samples it decodes (for
  the requested output colour space, by scanline and position in the scanline). The
  dimensions of a JPEG frame are 16-bit numbers; the codec reports them in fields of type
  \<^verbatim>\<open>JDIMENSION\<close>.
\<close>

record decoder =
  raises :: "call \<Rightarrow> bool"
  frame_width :: "16 word"
  frame_height :: "16 word"
  frame_color_space :: J_COLOR_SPACE
  profile :: "byte list option"
  samples :: "J_COLOR_SPACE \<Rightarrow> nat \<Rightarrow> nat \<Rightarrow> byte"

text \<open>
  Of \<^verbatim>\<open>struct jpeg_decompress_struct\<close> the function uses the fields below. \<open>pool\<close> lists
  the blocks the session's memory manager owns (\<^verbatim>\<open>JPOOL_IMAGE\<close>); they live until the
  session is destroyed.
\<close>

record jpeg_decompress_struct =
  mem :: bool
  pool :: "nat list"
  src :: "string option"
  jpeg_color_space :: J_COLOR_SPACE
  out_color_space :: J_COLOR_SPACE
  output_width :: uint32
  output_height :: uint32
  output_components :: int
  output_scanline :: uint32

text \<open>
  The locals of \<^verbatim>\<open>avifJPEGRead\<close>, the image behind the pointer \<^verbatim>\<open>avif\<close>, and the world.
  \<^verbatim>\<open>row_stride\<close> and \<^verbatim>\<open>row\<close> are C \<^verbatim>\<open>int\<close>s that only ever enter 32-bit unsigned
  arithmetic; they are kept as their 32-bit patterns. \<^verbatim>\<open>buffer\<close> is the pointer to the
  one row of the sample array.
\<close>

record rd =
  ret :: bool
  iccData :: "nat option"
  rgb :: avifRGBImage
  fp :: "string option"
  cinfo :: jpeg_decompress_struct
  row_stride :: uint32
  buffer :: "nat option"
  row :: uint32
  avif :: avifImage
  world :: world

text \<open>
  Lines 21 to 26: the error callback prints the codec's message and jumps to the
  \<^verbatim>\<open>setjmp\<close> of line 60. Line 59 installs it before the first codec call, so a fatal
  error in any codec call of \<^verbatim>\<open>avifJPEGRead\<close> ends here.
\<close>

definition my_error_exit :: "rd \<Rightarrow> rd flow" where
  "my_error_exit s = Longjmp (s\<lparr>world := note_call Output_message (world s)\<rparr>)"

text \<open>A codec call: recorded, then either a fatal error or the call's effect.\<close>

definition codec_call :: "decoder \<Rightarrow> call \<Rightarrow> (rd \<Rightarrow> rd flow) \<Rightarrow> rd \<Rightarrow> rd flow" where
  "codec_call dec c effect s =
     (let s1 = s\<lparr>world := note_call c (world s)\<rparr>
      in if raises dec c then my_error_exit s1 else effect s1)"

text \<open>Lines 64 to 68.\<close>

definition jpeg_create_decompress :: "decoder \<Rightarrow> rd \<Rightarrow> rd flow" where
  "jpeg_create_decompress dec =
     codec_call dec Jpeg_create_decompress
       (\<lambda>s. Next (s\<lparr>cinfo := (cinfo s)\<lparr>mem := True\<rparr>,
                     world := (world s)\<lparr>sessions := Suc (sessions (world s))\<rparr>\<rparr>))"

definition setup_read_icc_profile :: "decoder \<Rightarrow> rd \<Rightarrow> rd flow" where
  "setup_read_icc_profile dec = codec_call dec Setup_read_icc_profile Next"

definition jpeg_stdio_src :: "decoder \<Rightarrow> rd \<Rightarrow> rd flow" where
  "jpeg_stdio_src dec =
     codec_call dec Jpeg_stdio_src (\<lambda>s. Next (s\<lparr>cinfo := (cinfo s)\<lparr>src := fp s\<rparr>\<rparr>))"

text \<open>
  \<^verbatim>\<open>jpeg_read_header\<close> records the colour space of the frame and chooses the default
  output colour space for it: grayscale stays grayscale, CMYK and YCCK come out as CMYK,
  everything else as RGB.
\<close>

definition default_out_color_space :: "J_COLOR_SPACE \<Rightarrow> J_COLOR_SPACE" where
  "default_out_color_space cs =
     (case cs of
        JCS_GRAYSCALE \<Rightarrow> JCS_GRAYSCALE
      | JCS_CMYK \<Rightarrow> JCS_CMYK
      | JCS_YCCK \<Rightarrow> JCS_CMYK
      | _ \<Rightarrow> JCS_RGB)"

definition jpeg_read_header :: "decoder \<Rightarrow> rd \<Rightarrow> rd flow" where
  "jpeg_read_header dec =
     codec_call dec Jpeg_read_header
       (\<lambda>s. Next (s\<lparr>cinfo := (cinfo s)
                      \<lparr>jpeg_color_space := frame_color_space dec,
                       out_color_space := default_out_color_space (frame_color_space dec)\<rparr>\<rparr>))"

text \<open>Line 69.\<close>

definition set_out_color_space :: "rd \<Rightarrow> rd flow" where
  "set_out_color_space s = Next (s\<lparr>cinfo := (cinfo s)\<lparr>out_color_space := JCS_RGB\<rparr>\<rparr>)"

text \<open>
  Line 70. \<^verbatim>\<open>jpeg_start_decompress\<close> fixes the output dimensions and the number of
  samples per pixel of the output colour space that is set when it is called.
\<close>

definition components_of :: "J_COLOR_SPACE \<Rightarrow> int" where
  "components_of cs =
     (case cs of
        JCS_UNKNOWN \<Rightarrow> 0
      | JCS_GRAYSCALE \<Rightarrow> 1
      | JCS_RGB \<Rightarrow> 3
      | JCS_YCbCr \<Rightarrow> 3
      | JCS_CMYK \<Rightarrow> 4
      | JCS_YCCK \<Rightarrow> 4
      | JCS_EXT_RGBX \<Rightarrow> 4)"

definition jpeg_start_decompress :: "decoder \<Rightarrow> rd \<Rightarrow> rd flow" where
  "jpeg_start_decompress dec s =
     codec_call dec (Jpeg_start_decompress (out_color_space (cinfo s)))
       (\<lambda>s. Next (s\<lparr>cinfo := (cinfo s)
                      \<lparr>output_width := ucast (frame_width dec),
                       output_height := ucast (frame_height dec),
                       output_components := components_of (out_color_space (cinfo s)),
                       output_scanline := 0\<rparr>\<rparr>)) s"

text \<open>
  Lines 72 and 73: the row stride, and a sample array of one row of that many samples
  from the session's pool. The product is unsigned 32-bit arithmetic.
\<close>

definition alloc_sarray :: "decoder \<Rightarrow> rd \<Rightarrow> rd flow" where
  "alloc_sarray dec s0 =
     (let s = s0\<lparr>row_stride := output_width (cinfo s0) * word_of_int (output_components (cinfo s0))\<rparr>
      in codec_call dec Alloc_sarray
           (\<lambda>s. let (a, w1) = avifAlloc (unat (row_stride s)) (world s)
                 in Next (s\<lparr>cinfo := (cinfo s)\<lparr>pool := a # pool (cinfo s)\<rparr>,
                            buffer := Some a, world := w1\<rparr>)) s)"

text \<open>
  Lines 75 to 80.

  Modelled from the spec: \<^verbatim>\<open>read_icc_profile\<close> (iccjpeg.c) and \<^verbatim>\<open>avifImageSetProfileICC\<close>
  (the library) are not in this file. For the spec the first extracts the raw profile
  bytes from a decode context, into a buffer the bridge owns and releases; the second
  copies the bytes into the image.
\<close>

definition read_icc_profile :: "decoder \<Rightarrow> world \<Rightarrow> (nat \<times> uint32) option \<times> world" where
  "read_icc_profile dec w =
     (let w1 = note_call Read_icc_profile w in
      case profile dec of
        None \<Rightarrow> (None, w1)
      | Some bs \<Rightarrow>
          (let (a, w2) = avifAlloc (length bs) w1
           in (Some (a, of_nat (length bs)), fill a bs w2)))"

definition avifImageSetProfileICC :: "avifImage \<Rightarrow> byte list \<Rightarrow> avifImage" where
  "avifImageSetProfileICC img bs = img\<lparr>icc := bs\<rparr>"

definition extract_icc :: "decoder \<Rightarrow> rd \<Rightarrow> rd flow" where
  "extract_icc dec s =
     (let (r, w1) = read_icc_profile dec (world s) in
      case r of
        None \<Rightarrow> Next (s\<lparr>world := w1\<rparr>)
      | Some (iccDataTmp, iccDataLen) \<Rightarrow>
          (case peek (Some iccDataTmp) 0 (unat iccDataLen) w1 of
             None \<Rightarrow> Fault
           | Some bs \<Rightarrow>
               Next (s\<lparr>iccData := Some iccDataTmp,
                       avif := avifImageSetProfileICC (avif s) bs,
                       world := w1\<rparr>)))"

text \<open>Lines 82 to 87.\<close>

definition set_image_fields :: "avifPixelFormat \<Rightarrow> uint32 \<Rightarrow> rd \<Rightarrow> rd flow" where
  "set_image_fields requestedFormat requestedDepth s =
     Next (s\<lparr>avif := (avif s)
               \<lparr>avifImage.width := output_width (cinfo s),
                avifImage.height := output_height (cinfo s),
                yuvFormat := requestedFormat,
                avifImage.depth := (if requestedDepth \<noteq> 0 then requestedDepth else 8),
                avifImage.alphaPremultiplied := False\<rparr>\<rparr>)"

text \<open>Lines 88 to 91.\<close>

definition allocate_rgb :: "rd \<Rightarrow> rd flow" where
  "allocate_rgb s =
     (let r0 = avifRGBImageSetDefaults (avif s);
          r1 = r0\<lparr>format := AVIF_RGB_FORMAT_RGB, avifRGBImage.depth := 8\<rparr>;
          (r2, w1) = avifRGBImageAllocatePixels r1 (world s)
      in Next (s\<lparr>rgb := r2, world := w1\<rparr>))"

text \<open>
  \<^verbatim>\<open>jpeg_read_scanlines(&cinfo, buffer, 1)\<close> on a source that does not suspend: the codec
  stores the \<^verbatim>\<open>output_width * output_components\<close> samples of the next scanline into the
  row of the sample array and advances \<^verbatim>\<open>output_scanline\<close> by one.
\<close>

definition jpeg_read_scanlines :: "decoder \<Rightarrow> rd \<Rightarrow> rd flow" where
  "jpeg_read_scanlines dec s =
     codec_call dec (Jpeg_read_scanlines (unat (output_scanline (cinfo s))))
       (\<lambda>s. let c = cinfo s;
                 line = map (samples dec (out_color_space c) (unat (output_scanline c)))
                          [0..<unat (output_width c) * nat (output_components c)]
             in case poke (buffer s) 0 line (world s) of
                  None \<Rightarrow> Fault
                | Some w1 \<Rightarrow>
                    Next (s\<lparr>cinfo := c\<lparr>output_scanline := output_scanline c + 1\<rparr>,
                            world := w1\<rparr>)) s"

lemma jpeg_read_scanlines_Next:
  "jpeg_read_scanlines dec s = Next s' \<Longrightarrow>
     output_scanline (cinfo s') = output_scanline (cinfo s) + 1 \<and>
     output_height (cinfo s') = output_height (cinfo s)"
  by (auto simp: jpeg_read_scanlines_def codec_call_def my_error_exit_def Let_def
      split: option.splits if_splits)

text \<open>Lines 96 to 98, the rest of the loop body.\<close>

definition copy_row :: "rd \<Rightarrow> rd flow" where
  "copy_row s =
     (let pixelRow = (pixels (rgb s), unat (row s * rowBytes (rgb s)))
      in case memcpy pixelRow (buffer s, 0) (unat (rowBytes (rgb s))) (world s) of
           None \<Rightarrow> Fault
         | Some w1 \<Rightarrow> Next (s\<lparr>row := row s + 1, world := w1\<rparr>))"

lemma copy_row_Next:
  "copy_row s = Next s' \<Longrightarrow> cinfo s' = cinfo s"
  by (auto simp: copy_row_def Let_def split: option.splits)

text \<open>Lines 94 to 99.\<close>

function read_rows :: "decoder \<Rightarrow> rd \<Rightarrow> rd flow" where
  "read_rows dec s =
     (if output_scanline (cinfo s) < output_height (cinfo s) then
        (case run [jpeg_read_scanlines dec, copy_row] s of
           Next s' \<Rightarrow> read_rows dec s'
         | Goto_cleanup s' \<Rightarrow> Goto_cleanup s'
         | Longjmp s' \<Rightarrow> Longjmp s'
         | Fault \<Rightarrow> Fault)
      else Next s)"
  by pat_completeness auto
termination
proof (relation "measure (\<lambda>(dec, s). unat (output_height (cinfo s)) - unat (output_scanline (cinfo s)))")
  show "wf (measure (\<lambda>(dec, s). unat (output_height (cinfo s)) - unat (output_scanline (cinfo s))))"
    by simp
next
  fix dec :: decoder and s s' :: rd
  assume lt: "output_scanline (cinfo s) < output_height (cinfo s)"
    and step: "run [jpeg_read_scanlines dec, copy_row] s = Next s'"
  from step obtain s1 where s1: "jpeg_read_scanlines dec s = Next s1" and s2: "copy_row s1 = Next s'"
    by (auto split: flow.splits)
  from lt have "unat (output_scanline (cinfo s)) < unat (output_height (cinfo s))"
    by (simp add: word_less_nat_alt)
  moreover from lt have "unat (output_scanline (cinfo s) + 1) = Suc (unat (output_scanline (cinfo s)))"
    by (rule unat_inc)
  ultimately show "((dec, s'), (dec, s)) \<in>
      measure (\<lambda>(dec, s). unat (output_height (cinfo s)) - unat (output_scanline (cinfo s)))"
    using jpeg_read_scanlines_Next [OF s1] copy_row_Next [OF s2] by simp
qed

declare read_rows.simps [simp del]

definition scan_loop :: "decoder \<Rightarrow> rd \<Rightarrow> rd flow" where
  "scan_loop dec s = read_rows dec (s\<lparr>row := 0\<rparr>)"

text \<open>
  Lines 100 to 103. The conversion is handed the image and the completed buffer; when it
  succeeds the planes it produced are the image's pixel data, when it fails the image is
  as it was.
\<close>

definition convert_to_yuv :: "avif_library \<Rightarrow> rd \<Rightarrow> rd flow" where
  "convert_to_yuv lib s =
     (let w1 = note_call Avif_image_rgb_to_yuv (world s) in
      case pixels (rgb s) of
        None \<Rightarrow> Goto_cleanup (s\<lparr>world := w1\<rparr>)
      | Some a \<Rightarrow>
          (case heap w1 a of
             None \<Rightarrow> Fault
           | Some px \<Rightarrow>
               (case avifImageRGBToYUV lib (avif s) (rgb s) px of
                  None \<Rightarrow> Goto_cleanup (s\<lparr>world := w1\<rparr>)
                | Some planes \<Rightarrow>
                    Next (s\<lparr>avif := (avif s)\<lparr>yuvPlanes := Some planes\<rparr>, world := w1\<rparr>))))"

text \<open>Lines 105 and 106.\<close>

definition jpeg_finish_decompress :: "decoder \<Rightarrow> rd \<Rightarrow> rd flow" where
  "jpeg_finish_decompress dec = codec_call dec Jpeg_finish_decompress Next"

definition set_ret :: "rd \<Rightarrow> rd flow" where
  "set_ret s = Next (s\<lparr>ret := True\<rparr>)"

text \<open>Lines 107 to 114: the label \<^verbatim>\<open>cleanup\<close> and the return.\<close>

definition jpeg_destroy_decompress :: "jpeg_decompress_struct \<Rightarrow> world \<Rightarrow> world" where
  "jpeg_destroy_decompress c w =
     (let w1 = note_call Jpeg_destroy_decompress (fold avifFree (pool c) w)
      in if mem c then w1\<lparr>sessions := sessions w1 - 1\<rparr> else w1)"

definition rd_cleanup :: "rd \<Rightarrow> bool \<times> avifImage \<times> world" where
  "rd_cleanup s =
     (let w1 = jpeg_destroy_decompress (cinfo s) (world s);
          w2 = (case fp s of None \<Rightarrow> w1 | Some name \<Rightarrow> fclose name w1);
          w3 = (case iccData s of None \<Rightarrow> w2 | Some a \<Rightarrow> avifFree a w2);
          (r, w4) = avifRGBImageFreePixels (rgb s) w3
      in (ret s, avif s, w4))"

definition avifJPEGRead_body ::
  "avif_library \<Rightarrow> decoder \<Rightarrow> avifPixelFormat \<Rightarrow> uint32 \<Rightarrow> rd \<Rightarrow> rd flow" where
  "avifJPEGRead_body lib dec requestedFormat requestedDepth =
     run [jpeg_create_decompress dec,
          setup_read_icc_profile dec,
          jpeg_stdio_src dec,
          jpeg_read_header dec,
          set_out_color_space,
          jpeg_start_decompress dec,
          alloc_sarray dec,
          extract_icc dec,
          set_image_fields requestedFormat requestedDepth,
          allocate_rgb,
          scan_loop dec,
          convert_to_yuv lib,
          jpeg_finish_decompress dec,
          set_ret]"

text \<open>
  The locals once the file is open (lines 44 to 58): \<^verbatim>\<open>ret\<close> is false, \<^verbatim>\<open>iccData\<close> is
  null, \<^verbatim>\<open>rgb\<close> is zeroed, the session struct holds nothing yet.
\<close>

definition rd_entry :: "string \<Rightarrow> avifImage \<Rightarrow> world \<Rightarrow> rd" where
  "rd_entry name img w =
     \<lparr>ret = False, iccData = None, rgb = zero_rgb, fp = Some name,
      cinfo = \<lparr>jpeg_decompress_struct.mem = False, pool = [], src = None,
               jpeg_color_space = JCS_UNKNOWN, out_color_space = JCS_UNKNOWN,
               output_width = 0, output_height = 0, output_components = 0,
               output_scanline = 0\<rparr>,
      row_stride = 0, buffer = None, row = 0, avif = img, world = w\<rparr>"

text \<open>
  The whole function. \<open>codec\<close> gives the codec's behaviour on the contents of the file.
  When the codec calls \<^verbatim>\<open>my_error_exit\<close>, \<^verbatim>\<open>setjmp\<close> returns a second time and line 61
  goes to \<^verbatim>\<open>cleanup\<close>; the locals are read there as they were at the jump, which is what
  the comment of lines 28 to 40 relies on for \<^verbatim>\<open>rgb\<close>. \<open>None\<close> stands for an execution
  with undefined behaviour.
\<close>

definition avifJPEGRead ::
  "avif_library \<Rightarrow> (segment list \<Rightarrow> decoder) \<Rightarrow> string \<Rightarrow> avifImage \<Rightarrow> avifPixelFormat \<Rightarrow> uint32
     \<Rightarrow> world \<Rightarrow> (bool \<times> avifImage \<times> world) option" where
  "avifJPEGRead lib codec inputFilename img requestedFormat requestedDepth w0 =
     (let (h, w1) = fopen inputFilename RB w0 in
      case h of
        None \<Rightarrow> Some (False, img, w1)
      | Some name \<Rightarrow>
          (case avifJPEGRead_body lib (codec (contents w1 name)) requestedFormat requestedDepth
                  (rd_entry name img w1) of
             Next s \<Rightarrow> Some (rd_cleanup s)
           | Goto_cleanup s \<Rightarrow> Some (rd_cleanup s)
           | Longjmp s \<Rightarrow> Some (rd_cleanup s)
           | Fault \<Rightarrow> None))"

subsection \<open>How a call ends\<close>

text \<open>
  The ways the two functions reach their \<^verbatim>\<open>return\<close>, named as in the spec's error
  taxonomy. \<^verbatim>\<open>avifJPEGRead\<close> returns early when \<^verbatim>\<open>fopen\<close> fails (line 53), jumps to
  \<^verbatim>\<open>cleanup\<close> from the error callback (lines 25 and 61), goes there when the
  conversion fails (line 102), or falls through to it with \<^verbatim>\<open>ret\<close> set. \<^verbatim>\<open>avifJPEGWrite\<close>
  goes to \<^verbatim>\<open>cleanup\<close> when a conversion fails (lines 164 and 172) or when \<^verbatim>\<open>fopen\<close> fails
  (line 182), or falls through.
\<close>

datatype outcome = Success | IOError | CodecFatalError | ConversionError | Undefined_behaviour

definition avifJPEGRead_outcome ::
  "avif_library \<Rightarrow> (segment list \<Rightarrow> decoder) \<Rightarrow> string \<Rightarrow> avifImage \<Rightarrow> avifPixelFormat \<Rightarrow> uint32
     \<Rightarrow> world \<Rightarrow> outcome" where
  "avifJPEGRead_outcome lib codec inputFilename img requestedFormat requestedDepth w0 =
     (let (h, w1) = fopen inputFilename RB w0 in
      case h of
        None \<Rightarrow> IOError
      | Some name \<Rightarrow>
          (case avifJPEGRead_body lib (codec (contents w1 name)) requestedFormat requestedDepth
                  (rd_entry name img w1) of
             Next s \<Rightarrow> Success
           | Goto_cleanup s \<Rightarrow> ConversionError
           | Longjmp s \<Rightarrow> CodecFatalError
           | Fault \<Rightarrow> Undefined_behaviour))"


section \<open>A codec for streams, and example inputs\<close>

text \<open>
  Modelled from the spec: the codec itself and the ICC marker reader are outside this file.
  The spec treats the codec as a scanline pump and the marker reader as the function that
  extracts the raw profile bytes. \<open>stream_decoder\<close> is the decoder of a stream of segments
  in that sense: the frame header gives the dimensions, the first non-empty ICC marker
  the profile, the scan data the samples; a stream without a frame header, or with a
  dimension that does not fit the 16 bits of a JPEG frame header, is rejected by
  \<^verbatim>\<open>jpeg_read_header\<close> with a fatal error.
\<close>

fun frame_of :: "segment list \<Rightarrow> (uint32 \<times> uint32) option" where
  "frame_of [] = None"
| "frame_of (Frame_header w h # segs) = Some (w, h)"
| "frame_of (seg # segs) = frame_of segs"

fun icc_of :: "segment list \<Rightarrow> byte list option" where
  "icc_of [] = None"
| "icc_of (ICC_marker bs # segs) = (if bs = [] then icc_of segs else Some bs)"
| "icc_of (seg # segs) = icc_of segs"

fun scans_of :: "segment list \<Rightarrow> byte list list" where
  "scans_of [] = []"
| "scans_of (Scan_data bs # segs) = bs # scans_of segs"
| "scans_of (seg # segs) = scans_of segs"

definition stream_decoder :: "segment list \<Rightarrow> decoder" where
  "stream_decoder segs =
     \<lparr>raises = (\<lambda>c. c = Jpeg_read_header \<and>
                     (case frame_of segs of
                        None \<Rightarrow> True
                      | Some (w, h) \<Rightarrow> 65535 < w \<or> 65535 < h)),
      frame_width = (case frame_of segs of None \<Rightarrow> 0 | Some (w, h) \<Rightarrow> ucast w),
      frame_height = (case frame_of segs of None \<Rightarrow> 0 | Some (w, h) \<Rightarrow> ucast h),
      frame_color_space = JCS_YCbCr,
      profile = icc_of segs,
      samples = (\<lambda>cs j k. if j < length (scans_of segs) \<and> k < length (scans_of segs ! j)
                           then scans_of segs ! j ! k else 0)\<rparr>"

text \<open>Inputs on which the functions are run below.\<close>

definition scale_by_alpha :: "byte \<Rightarrow> byte \<Rightarrow> byte" where
  "scale_by_alpha c a = ucast ((ucast c * ucast a) div (255 :: uint32))"

fun premultiply_bytes :: "byte list \<Rightarrow> byte list" where
  "premultiply_bytes (r # g # b # a # rest) =
     scale_by_alpha r a # scale_by_alpha g a # scale_by_alpha b a # a # premultiply_bytes rest"
| "premultiply_bytes rest = rest"

definition ex_library :: avif_library where
  "ex_library =
     \<lparr>avifImageYUVToRGB = (\<lambda>img r. Some [200, 100, 50, 128, 10, 20, 30, 255]),
      avifRGBImagePremultiplyAlpha = (\<lambda>r bs. Some (premultiply_bytes bs)),
      avifImageRGBToYUV = (\<lambda>img r px. Some px)\<rparr>"

definition ex_stream :: "segment list" where
  "ex_stream = [Frame_header 2 1, ICC_marker [1, 2, 3], Scan_data [9, 8, 7, 6, 5, 4], End_of_image]"

definition ex_world :: world where
  "ex_world =
     \<lparr>heap = (\<lambda>a. None), brk = 0, junk = (\<lambda>k. 170),
      files = (\<lambda>name. if name = ''in.jpg'' then Some ex_stream else None),
      can_open = (\<lambda>name m. name \<noteq> ''missing.jpg''),
      handles = [], sessions = 0, calls = []\<rparr>"

definition ex_image :: avifImage where
  "ex_image =
     \<lparr>avifImage.width = 2, avifImage.height = 1, avifImage.depth = 8,
      yuvFormat = AVIF_PIXEL_FORMAT_YUV444, avifImage.alphaPremultiplied = False,
      icc = [], yuvPlanes = Some [16, 128, 128, 235, 128, 128]\<rparr>"

definition ex_premultiplied :: avifImage where
  "ex_premultiplied = ex_image\<lparr>avifImage.alphaPremultiplied := True\<rparr>"

section \<open>Proof rules for function bodies\<close>

text \<open>
  A triple states what holds after a statement, for each way of leaving it: \<open>Q\<close> when it
  falls through, \<open>G\<close> after \<^verbatim>\<open>goto cleanup\<close>, \<open>L\<close> after \<^verbatim>\<open>longjmp\<close>; \<open>F\<close> tells whether
  it may fault.
\<close>

definition post :: "('s \<Rightarrow> bool) \<Rightarrow> ('s \<Rightarrow> bool) \<Rightarrow> ('s \<Rightarrow> bool) \<Rightarrow> bool \<Rightarrow> 's flow \<Rightarrow> bool" where
  "post Q G L F r =
     (case r of Next s \<Rightarrow> Q s | Goto_cleanup s \<Rightarrow> G s | Longjmp s \<Rightarrow> L s | Fault \<Rightarrow> F)"

definition triple ::
  "('s \<Rightarrow> bool) \<Rightarrow> ('s \<Rightarrow> 's flow) \<Rightarrow> ('s \<Rightarrow> bool) \<Rightarrow> ('s \<Rightarrow> bool) \<Rightarrow> ('s \<Rightarrow> bool) \<Rightarrow> bool \<Rightarrow> bool" where
  "triple P c Q G L F = (\<forall>s. P s \<longrightarrow> post Q G L F (c s))"

lemma post_simps [simp]:
  "post Q G L F (Next s) = Q s"
  "post Q G L F (Goto_cleanup s) = G s"
  "post Q G L F (Longjmp s) = L s"
  "post Q G L F Fault = F"
  by (simp_all add: post_def)

lemma tripleI: "(\<And>s. P s \<Longrightarrow> post Q G L F (c s)) \<Longrightarrow> triple P c Q G L F"
  by (simp add: triple_def)

lemma tripleD: "triple P c Q G L F \<Longrightarrow> P s \<Longrightarrow> post Q G L F (c s)"
  by (simp add: triple_def)

lemma triple_run_Nil: "triple P (run []) P G L F"
  by (simp add: triple_def)

lemma triple_run_Cons:
  assumes "triple P c Q G L F" and "triple Q (run cs) R G L F"
  shows "triple P (run (c # cs)) R G L F"
proof (rule tripleI)
  fix s assume "P s"
  with assms(1) have "post Q G L F (c s)" by (rule tripleD)
  then show "post R G L F (run (c # cs) s)"
    using assms(2) by (cases "c s") (auto dest: tripleD)
qed

lemma run_append:
  "run (xs @ ys) s =
     (case run xs s of
        Next s' \<Rightarrow> run ys s'
      | Goto_cleanup s' \<Rightarrow> Goto_cleanup s'
      | Longjmp s' \<Rightarrow> Longjmp s'
      | Fault \<Rightarrow> Fault)"
  by (induction xs arbitrary: s) (auto split: flow.splits)

lemma triple_run_append:
  assumes "triple P (run xs) Q G L F" and "triple Q (run ys) R G L F"
  shows "triple P (run (xs @ ys)) R G L F"
proof (rule tripleI)
  fix s assume "P s"
  with assms(1) have "post Q G L F (run xs s)" by (rule tripleD)
  then show "post R G L F (run (xs @ ys) s)"
    using assms(2) by (cases "run xs s") (auto simp: run_append dest: tripleD)
qed

text \<open>The loops: an assertion kept by the loop body holds when the loop is left.\<close>

lemma read_rows_post:
  "triple I (run [jpeg_read_scanlines dec, copy_row]) I G L F \<Longrightarrow> I s \<Longrightarrow>
     post I G L F (read_rows dec s)"
proof (induction dec s rule: read_rows.induct)
  case (1 dec s)
  show ?case
  proof (cases "output_scanline (cinfo s) < output_height (cinfo s)")
    case False
    with "1.prems" show ?thesis by (simp add: read_rows.simps [of dec s])
  next
    case True
    from "1.prems" have p: "post I G L F (run [jpeg_read_scanlines dec, copy_row] s)"
      by (rule tripleD)
    show ?thesis
    proof (cases "run [jpeg_read_scanlines dec, copy_row] s")
      case (Next s')
      with p have "I s'" by simp
      with "1.IH" [OF True Next "1.prems"(1)] have "post I G L F (read_rows dec s')" .
      with True Next show ?thesis by (simp add: read_rows.simps [of dec s] del: run.simps)
    qed (use p True in \<open>simp_all add: read_rows.simps [of dec s] del: run.simps\<close>)
  qed
qed

lemma scan_loop_triple:
  assumes "triple I (jpeg_read_scanlines dec) I' G L F" and "triple I' copy_row I G L F"
    and "\<And>s. P s \<Longrightarrow> I (s\<lparr>row := 0\<rparr>)"
  shows "triple P (scan_loop dec) I G L F"
proof (rule tripleI)
  fix s assume "P s"
  then have "I (s\<lparr>row := 0\<rparr>)" by (rule assms(3))
  moreover have "triple I (run [jpeg_read_scanlines dec, copy_row]) I G L F"
    by (rule triple_run_Cons [OF assms(1)], rule triple_run_Cons [OF assms(2)], rule triple_run_Nil)
  ultimately show "post I G L F (scan_loop dec s)"
    unfolding scan_loop_def by (rule read_rows_post [rotated])
qed

lemma write_rows_post:
  "(\<And>s. I s \<Longrightarrow> next_scanline (wr.cinfo s) < image_height (wr.cinfo s) \<Longrightarrow>
        post I G L F (jpeg_write_scanlines
          (pixels (buf s), unat (next_scanline (wr.cinfo s) * rowBytes (buf s))) s)) \<Longrightarrow>
   I s \<Longrightarrow> post I G L F (write_rows buf s)"
proof (induction buf s rule: write_rows.induct)
  case (1 buf s)
  show ?case
  proof (cases "next_scanline (wr.cinfo s) < image_height (wr.cinfo s)")
    case False
    with "1.prems" show ?thesis by (simp add: write_rows.simps [of buf s])
  next
    case True
    let ?step = "jpeg_write_scanlines
        (pixels (buf s), unat (next_scanline (wr.cinfo s) * rowBytes (buf s))) s"
    from "1.prems"(1) [OF "1.prems"(2) True] have p: "post I G L F ?step" .
    show ?thesis
    proof (cases ?step)
      case (Next s')
      with p have "I s'" by simp
      with "1.IH" [OF True Next "1.prems"(1)] have "post I G L F (write_rows buf s')" by simp
      with True Next show ?thesis by (simp add: write_rows.simps [of buf s])
    qed (use p True in \<open>simp_all add: write_rows.simps [of buf s]\<close>)
  qed
qed

lemmas rd_step_defs =
  jpeg_create_decompress_def setup_read_icc_profile_def jpeg_stdio_src_def jpeg_read_header_def
  set_out_color_space_def jpeg_start_decompress_def alloc_sarray_def extract_icc_def
  set_image_fields_def allocate_rgb_def jpeg_read_scanlines_def copy_row_def convert_to_yuv_def
  jpeg_finish_decompress_def set_ret_def codec_call_def my_error_exit_def

section \<open>What the decoder leaves in the image\<close>

text \<open>
  The bytes \<^verbatim>\<open>read_icc_profile\<close> hands over (the length it reports is an \<^verbatim>\<open>unsigned int\<close>),
  or the profile the image had when the stream holds none.
\<close>

definition icc_read :: "decoder \<Rightarrow> avifImage \<Rightarrow> byte list" where
  "icc_read dec img0 =
     (case profile dec of
        None \<Rightarrow> icc img0
      | Some bs \<Rightarrow> take (unat (of_nat (length bs) :: uint32)) bs)"

definition fields_set :: "decoder \<Rightarrow> avifPixelFormat \<Rightarrow> uint32 \<Rightarrow> avifImage \<Rightarrow> bool" where
  "fields_set dec requestedFormat requestedDepth img =
     (avifImage.width img = ucast (frame_width dec) \<and>
      avifImage.height img = ucast (frame_height dec) \<and>
      avifImage.depth img = (if requestedDepth = 0 then 8 else requestedDepth) \<and>
      yuvFormat img = requestedFormat \<and>
      \<not> avifImage.alphaPremultiplied img)"

definition running :: "avifImage \<Rightarrow> rd \<Rightarrow> bool" where
  "running img0 s =
     (\<not> ret s \<and> icc (avif s) = icc img0 \<and> yuvPlanes (avif s) = yuvPlanes img0)"

definition started :: "decoder \<Rightarrow> avifImage \<Rightarrow> rd \<Rightarrow> bool" where
  "started dec img0 s =
     (running img0 s \<and> output_width (cinfo s) = ucast (frame_width dec) \<and>
      output_height (cinfo s) = ucast (frame_height dec))"

definition profiled :: "decoder \<Rightarrow> avifImage \<Rightarrow> rd \<Rightarrow> bool" where
  "profiled dec img0 s =
     (\<not> ret s \<and> icc (avif s) = icc_read dec img0 \<and> yuvPlanes (avif s) = yuvPlanes img0)"

definition described :: "decoder \<Rightarrow> avifPixelFormat \<Rightarrow> uint32 \<Rightarrow> avifImage \<Rightarrow> rd \<Rightarrow> bool" where
  "described dec fmt d img0 s = (profiled dec img0 s \<and> fields_set dec fmt d (avif s))"

definition converted :: "decoder \<Rightarrow> avifPixelFormat \<Rightarrow> uint32 \<Rightarrow> avifImage \<Rightarrow> rd \<Rightarrow> bool" where
  "converted dec fmt d img0 s =
     (\<not> ret s \<and> icc (avif s) = icc_read dec img0 \<and> fields_set dec fmt d (avif s))"

definition decoded :: "decoder \<Rightarrow> avifPixelFormat \<Rightarrow> uint32 \<Rightarrow> avifImage \<Rightarrow> rd \<Rightarrow> bool" where
  "decoded dec fmt d img0 s =
     (icc (avif s) = icc_read dec img0 \<and> fields_set dec fmt d (avif s))"

definition unfinished :: "rd \<Rightarrow> bool" where
  "unfinished s = (\<not> ret s)"

lemma unat_of_nat_le: "unat (of_nat n :: uint32) \<le> n"
  by (simp add: unat_of_nat)

lemma running_steps:
  "triple (running img0) (jpeg_create_decompress dec) (running img0) G unfinished F"
  "triple (running img0) (setup_read_icc_profile dec) (running img0) G unfinished F"
  "triple (running img0) (jpeg_stdio_src dec) (running img0) G unfinished F"
  "triple (running img0) (jpeg_read_header dec) (running img0) G unfinished F"
  "triple (running img0) set_out_color_space (running img0) G unfinished F"
  "triple (running img0) (jpeg_start_decompress dec) (started dec img0) G unfinished F"
  "triple (started dec img0) (alloc_sarray dec) (started dec img0) G unfinished F"
  by (auto simp: triple_def running_def started_def unfinished_def rd_step_defs Let_def
      avifAlloc_def split: prod.splits)

lemma extract_icc_profiled:
  "triple (started dec img0) (extract_icc dec)
     (\<lambda>s. profiled dec img0 s \<and> output_width (cinfo s) = ucast (frame_width dec) \<and>
           output_height (cinfo s) = ucast (frame_height dec)) G unfinished True"
  by (auto simp: triple_def running_def started_def profiled_def extract_icc_def
      read_icc_profile_def avifImageSetProfileICC_def icc_read_def avifAlloc_def fill_def
      note_call_def peek_def Let_def unat_of_nat_le split: option.splits prod.splits)

lemma set_image_fields_described:
  "triple (\<lambda>s. profiled dec img0 s \<and> output_width (cinfo s) = ucast (frame_width dec) \<and>
           output_height (cinfo s) = ucast (frame_height dec))
     (set_image_fields fmt d) (described dec fmt d img0) G unfinished F"
  by (auto simp: triple_def profiled_def described_def fields_set_def set_image_fields_def)

lemma described_steps:
  "triple (described dec fmt d img0) allocate_rgb (described dec fmt d img0) G unfinished F"
  "triple (described dec fmt d img0) (jpeg_read_scanlines dec) (described dec fmt d img0)
     G unfinished True"
  "triple (described dec fmt d img0) copy_row (described dec fmt d img0) G unfinished True"
  by (auto simp: triple_def profiled_def described_def unfinished_def fields_set_def rd_step_defs
      Let_def avifRGBImageAllocatePixels_def avifAlloc_def split: option.splits prod.splits)

lemma convert_to_yuv_converted:
  "triple (described dec fmt d img0) (convert_to_yuv lib) (converted dec fmt d img0)
     (profiled dec img0) unfinished True"
  by (auto simp: triple_def profiled_def described_def converted_def fields_set_def
      convert_to_yuv_def Let_def split: option.splits)

lemma converted_steps:
  "triple (converted dec fmt d img0) (jpeg_finish_decompress dec) (converted dec fmt d img0)
     G unfinished F"
  "triple (converted dec fmt d img0) set_ret (decoded dec fmt d img0) G unfinished F"
  by (auto simp: triple_def converted_def decoded_def unfinished_def rd_step_defs Let_def)

lemma avifJPEGRead_body_image:
  "triple (running img0) (avifJPEGRead_body lib dec fmt d)
     (decoded dec fmt d img0) (profiled dec img0) unfinished True"
  unfolding avifJPEGRead_body_def
  apply (rule triple_run_Cons, rule running_steps)+
  apply (rule triple_run_Cons, rule extract_icc_profiled)
  apply (rule triple_run_Cons, rule set_image_fields_described)
  apply (rule triple_run_Cons, rule described_steps)
  apply (rule triple_run_Cons, rule scan_loop_triple, rule described_steps, rule described_steps)
   apply (simp add: described_def profiled_def fields_set_def)
  apply (rule triple_run_Cons, rule convert_to_yuv_converted)
  apply (rule triple_run_Cons, rule converted_steps)+
  apply (rule triple_run_Nil)
  done

section \<open>Resources held during a decode\<close>

text \<open>
  A world is well formed when no block lives at or above the next address the allocator
  hands out.
\<close>

definition heap_wf :: "world \<Rightarrow> bool" where
  "heap_wf w = (\<forall>a. brk w \<le> a \<longrightarrow> heap w a = None)"

text \<open>
  \<open>heap_ok w0 w own\<close>: relative to the world \<open>w0\<close> at entry, the blocks that were live
  then are untouched in \<open>w\<close>, and every other live block is one of \<open>own\<close>.
\<close>

definition heap_ok :: "world \<Rightarrow> world \<Rightarrow> nat set \<Rightarrow> bool" where
  "heap_ok w0 w own =
     (brk w0 \<le> brk w \<and>
      (\<forall>a. a < brk w0 \<longrightarrow> heap w a = heap w0 a) \<and>
      (\<forall>a. brk w0 \<le> a \<longrightarrow> heap w a \<noteq> None \<longrightarrow> a \<in> own) \<and>
      (\<forall>a \<in> own. brk w0 \<le> a))"

lemma heap_ok_note_call [simp]: "heap_ok w0 (note_call c w) own = heap_ok w0 w own"
  by (simp add: heap_ok_def note_call_def)

lemma heap_ok_sessions [simp]: "heap_ok w0 (w\<lparr>sessions := n\<rparr>) own = heap_ok w0 w own"
  by (simp add: heap_ok_def)

lemma heap_ok_alloc:
  assumes "heap_ok w0 w own" and "avifAlloc n w = (a, w')"
  shows "heap_ok w0 w' (insert a own)"
proof -
  from assms(2) have a: "a = brk w"
    and w': "w' = w\<lparr>heap := (heap w)(brk w \<mapsto> map (junk w) [0..<n]), brk := Suc (brk w)\<rparr>"
    by (auto simp: avifAlloc_def)
  from assms(1) have "brk w0 \<le> brk w"
    by (simp add: heap_ok_def)
  with assms(1) show ?thesis
    unfolding heap_ok_def a w' by auto
qed

lemma heap_ok_fill: "heap_ok w0 w own \<Longrightarrow> a \<in> own \<Longrightarrow> heap_ok w0 (fill a bs w) own"
  by (auto simp: heap_ok_def fill_def split: option.splits)

lemma heap_ok_poke:
  "heap_ok w0 w own \<Longrightarrow> poke p off bs w = Some w' \<Longrightarrow> set_option p \<subseteq> own \<Longrightarrow> heap_ok w0 w' own"
  by (auto simp: heap_ok_def poke_def split: option.splits if_splits)

lemma heap_ok_memcpy:
  "heap_ok w0 w own \<Longrightarrow> memcpy (p, off) q n w = Some w' \<Longrightarrow> set_option p \<subseteq> own \<Longrightarrow>
     heap_ok w0 w' own"
  by (auto simp: memcpy_def split: option.splits dest: heap_ok_poke)

lemma avifAlloc_frame:
  "avifAlloc n w = (a, w') \<Longrightarrow>
     a = brk w \<and> handles w' = handles w \<and> sessions w' = sessions w \<and> files w' = files w \<and>
     calls w' = calls w \<and> can_open w' = can_open w \<and> junk w' = junk w"
  by (auto simp: avifAlloc_def)

lemma fill_frame [simp]:
  "handles (fill a bs w) = handles w" "sessions (fill a bs w) = sessions w"
  "files (fill a bs w) = files w" "calls (fill a bs w) = calls w" "brk (fill a bs w) = brk w"
  "can_open (fill a bs w) = can_open w" "junk (fill a bs w) = junk w"
  by (simp_all add: fill_def split: option.splits)

lemma poke_frame:
  "poke p off bs w = Some w' \<Longrightarrow>
     handles w' = handles w \<and> sessions w' = sessions w \<and> files w' = files w \<and>
     calls w' = calls w \<and> brk w' = brk w \<and> can_open w' = can_open w \<and> junk w' = junk w"
  by (auto simp: poke_def split: option.splits if_splits)

lemma memcpy_frame:
  "memcpy p q n w = Some w' \<Longrightarrow>
     handles w' = handles w \<and> sessions w' = sessions w \<and> files w' = files w \<and>
     calls w' = calls w \<and> brk w' = brk w \<and> can_open w' = can_open w \<and> junk w' = junk w"
  by (auto simp: memcpy_def split: option.splits dest: poke_frame)

lemma note_call_frame [simp]:
  "handles (note_call c w) = handles w" "sessions (note_call c w) = sessions w"
  "files (note_call c w) = files w" "calls (note_call c w) = calls w @ [c]"
  "brk (note_call c w) = brk w" "heap (note_call c w) = heap w"
  "can_open (note_call c w) = can_open w" "junk (note_call c w) = junk w"
  by (simp_all add: note_call_def)

text \<open>
  The blocks the function is responsible for: those of the session's pool, the ICC
  buffer and the pixel buffer. While the body runs, the file is open, the session is
  counted once it holds resources, and the heap is as \<open>heap_ok\<close> says.
\<close>

definition owned :: "rd \<Rightarrow> nat set" where
  "owned s = set (pool (cinfo s)) \<union> set_option (iccData s) \<union> set_option (pixels (rgb s))"

definition accounted :: "world \<Rightarrow> string \<Rightarrow> rd \<Rightarrow> bool" where
  "accounted w0 name s =
     (fp s = Some name \<and> handles (world s) = name # handles w0 \<and>
      sessions (world s) = (if mem (cinfo s) then Suc (sessions w0) else sessions w0) \<and>
      files (world s) = files w0 \<and>
      heap_ok w0 (world s) (owned s) \<and>
      set_option (buffer s) \<subseteq> set (pool (cinfo s)))"

definition at_entry :: "world \<Rightarrow> string \<Rightarrow> rd \<Rightarrow> bool" where
  "at_entry w0 name s =
     (accounted w0 name s \<and> \<not> mem (cinfo s) \<and> iccData s = None \<and> pixels (rgb s) = None)"

definition before_icc :: "world \<Rightarrow> string \<Rightarrow> rd \<Rightarrow> bool" where
  "before_icc w0 name s = (accounted w0 name s \<and> iccData s = None \<and> pixels (rgb s) = None)"

definition before_rgb :: "world \<Rightarrow> string \<Rightarrow> rd \<Rightarrow> bool" where
  "before_rgb w0 name s = (accounted w0 name s \<and> pixels (rgb s) = None)"

lemma jpeg_create_decompress_accounted:
  "triple (at_entry w0 name) (jpeg_create_decompress dec) (before_icc w0 name)
     G (accounted w0 name) F"
  by (auto simp: triple_def at_entry_def before_icc_def accounted_def owned_def
      rd_step_defs Let_def)

lemma before_icc_steps:
  "triple (before_icc w0 name) (setup_read_icc_profile dec) (before_icc w0 name)
     G (accounted w0 name) F"
  "triple (before_icc w0 name) (jpeg_stdio_src dec) (before_icc w0 name) G (accounted w0 name) F"
  "triple (before_icc w0 name) (jpeg_read_header dec) (before_icc w0 name) G (accounted w0 name) F"
  "triple (before_icc w0 name) set_out_color_space (before_icc w0 name) G (accounted w0 name) F"
  "triple (before_icc w0 name) (jpeg_start_decompress dec) (before_icc w0 name)
     G (accounted w0 name) F"
  by (auto simp: triple_def before_icc_def accounted_def owned_def
      rd_step_defs Let_def)

lemma alloc_sarray_accounted:
  "triple (before_icc w0 name) (alloc_sarray dec) (before_icc w0 name) G (accounted w0 name) F"
proof (rule tripleI)
  fix s assume p: "before_icc w0 name s"
  let ?s1 = "s\<lparr>row_stride := output_width (cinfo s) * word_of_int (output_components (cinfo s)),
                world := note_call Alloc_sarray (world s)\<rparr>"
  from p have q: "before_icc w0 name ?s1"
    by (auto simp: before_icc_def accounted_def owned_def)
  show "post (before_icc w0 name) G (accounted w0 name) F (alloc_sarray dec s)"
  proof (cases "raises dec Alloc_sarray")
    case True
    with q show ?thesis
      by (auto simp: alloc_sarray_def codec_call_def my_error_exit_def Let_def
          before_icc_def accounted_def owned_def)
  next
    case False
    obtain a w1 where al: "avifAlloc (unat (row_stride ?s1)) (world ?s1) = (a, w1)"
      by (cases "avifAlloc (unat (row_stride ?s1)) (world ?s1)")
    from q have "heap_ok w0 (world ?s1) (owned ?s1)"
      by (simp add: before_icc_def accounted_def)
    from heap_ok_alloc [OF this al] avifAlloc_frame [OF al] q False al show ?thesis
      by (auto simp: alloc_sarray_def codec_call_def Let_def before_icc_def accounted_def owned_def)
  qed
qed

lemma extract_icc_accounted:
  "triple (before_icc w0 name) (extract_icc dec) (before_rgb w0 name) G L True"
proof (rule tripleI)
  fix s assume p: "before_icc w0 name s"
  show "post (before_rgb w0 name) G L True (extract_icc dec s)"
  proof (cases "profile dec")
    case None
    with p show ?thesis
      by (auto simp: extract_icc_def read_icc_profile_def Let_def before_icc_def before_rgb_def
          accounted_def owned_def)
  next
    case (Some bs)
    obtain a w2 where al: "avifAlloc (length bs) (note_call Read_icc_profile (world s)) = (a, w2)"
      by (cases "avifAlloc (length bs) (note_call Read_icc_profile (world s))")
    from p have "heap_ok w0 (note_call Read_icc_profile (world s)) (owned s)"
      by (simp add: before_icc_def accounted_def)
    from heap_ok_alloc [OF this al] have "heap_ok w0 (fill a bs w2) (insert a (owned s))"
      by (rule heap_ok_fill) simp
    with avifAlloc_frame [OF al] p Some al show ?thesis
      by (auto simp: extract_icc_def read_icc_profile_def Let_def before_icc_def before_rgb_def
          accounted_def owned_def split: option.splits)
  qed
qed

lemma set_image_fields_accounted:
  "triple (before_rgb w0 name) (set_image_fields fmt d) (before_rgb w0 name) G L F"
  by (auto simp: triple_def before_rgb_def accounted_def owned_def set_image_fields_def)

lemma allocate_rgb_accounted:
  "triple (before_rgb w0 name) allocate_rgb (accounted w0 name) G L F"
proof (rule tripleI)
  fix s assume p: "before_rgb w0 name s"
  let ?r1 = "(avifRGBImageSetDefaults (avif s))\<lparr>format := AVIF_RGB_FORMAT_RGB, avifRGBImage.depth := 8\<rparr>"
  let ?n = "unat (avifRGBImage.width ?r1 * avifRGBImagePixelSize ?r1) * unat (avifRGBImage.height ?r1)"
  obtain a w1 where al: "avifAlloc ?n (world s) = (a, w1)"
    by (cases "avifAlloc ?n (world s)")
  from p have "heap_ok w0 (world s) (owned s)"
    by (simp add: before_rgb_def accounted_def)
  from heap_ok_alloc [OF this al] avifAlloc_frame [OF al] p al show
    "post (accounted w0 name) G L F (allocate_rgb s)"
    by (auto simp: allocate_rgb_def avifRGBImageAllocatePixels_def avifRGBImageSetDefaults_def
        Let_def before_rgb_def accounted_def owned_def)
qed

lemma jpeg_read_scanlines_accounted:
  "triple (accounted w0 name) (jpeg_read_scanlines dec) (accounted w0 name) G (accounted w0 name) True"
proof (rule tripleI)
  fix s assume p: "accounted w0 name s"
  let ?s1 = "s\<lparr>world := note_call (Jpeg_read_scanlines (unat (output_scanline (cinfo s)))) (world s)\<rparr>"
  from p have q: "accounted w0 name ?s1"
    by (auto simp: accounted_def owned_def)
  then have b: "set_option (buffer ?s1) \<subseteq> owned ?s1"
    by (auto simp: accounted_def owned_def)
  from q have h: "heap_ok w0 (world ?s1) (owned ?s1)"
    by (simp add: accounted_def)
  show "post (accounted w0 name) G (accounted w0 name) True (jpeg_read_scanlines dec s)"
    using q heap_ok_poke [OF h _ b] poke_frame
    by (auto simp: jpeg_read_scanlines_def codec_call_def my_error_exit_def Let_def
        accounted_def owned_def split: option.splits)
qed

lemma copy_row_accounted:
  "triple (accounted w0 name) copy_row (accounted w0 name) G L True"
proof (rule tripleI)
  fix s assume p: "accounted w0 name s"
  then have h: "heap_ok w0 (world s) (owned s)" and b: "set_option (pixels (rgb s)) \<subseteq> owned s"
    by (auto simp: accounted_def owned_def)
  show "post (accounted w0 name) G L True (copy_row s)"
    using p heap_ok_memcpy [OF h _ b] memcpy_frame
    by (auto simp: copy_row_def Let_def accounted_def owned_def split: option.splits)
qed

lemma accounted_steps:
  "triple (accounted w0 name) (convert_to_yuv lib) (accounted w0 name)
     (accounted w0 name) L True"
  "triple (accounted w0 name) (jpeg_finish_decompress dec) (accounted w0 name)
     G (accounted w0 name) F"
  "triple (accounted w0 name) set_ret (accounted w0 name) G L F"
  by (auto simp: triple_def accounted_def owned_def rd_step_defs Let_def
      split: option.splits)

lemma avifJPEGRead_body_accounted:
  "triple (at_entry w0 name) (avifJPEGRead_body lib dec fmt d)
     (accounted w0 name) (accounted w0 name) (accounted w0 name) True"
  unfolding avifJPEGRead_body_def
  apply (rule triple_run_Cons, rule jpeg_create_decompress_accounted)
  apply (rule triple_run_Cons, rule before_icc_steps)+
  apply (rule triple_run_Cons, rule alloc_sarray_accounted)
  apply (rule triple_run_Cons, rule extract_icc_accounted)
  apply (rule triple_run_Cons, rule set_image_fields_accounted)
  apply (rule triple_run_Cons, rule allocate_rgb_accounted)
  apply (rule triple_run_Cons, rule scan_loop_triple, rule jpeg_read_scanlines_accounted,
      rule copy_row_accounted)
   apply (simp add: accounted_def owned_def)
  apply (rule triple_run_Cons, rule accounted_steps)+
  apply (rule triple_run_Nil)
  done

text \<open>The cleanup releases everything the invariant accounts for.\<close>

lemma fold_avifFree_heap:
  "heap (fold avifFree xs w) a = (if a \<in> set xs then None else heap w a)"
  by (induction xs arbitrary: w) (auto simp: avifFree_def)

lemma fold_avifFree_frame [simp]:
  "handles (fold avifFree xs w) = handles w" "sessions (fold avifFree xs w) = sessions w"
  "files (fold avifFree xs w) = files w" "calls (fold avifFree xs w) = calls w"
  by (induction xs arbitrary: w) (auto simp: avifFree_def)

lemma rd_cleanup_world:
  "\<exists>w'. rd_cleanup s = (ret s, avif s, w') \<and>
     (\<forall>a. heap w' a = (if a \<in> owned s then None else heap (world s) a)) \<and>
     handles w' = (case fp s of None \<Rightarrow> handles (world s)
                   | Some name \<Rightarrow> remove1 name (handles (world s))) \<and>
     sessions w' = (if mem (cinfo s) then sessions (world s) - 1 else sessions (world s)) \<and>
     files w' = files (world s) \<and>
     calls w' = calls (world s) @ Jpeg_destroy_decompress
                  # (case fp s of None \<Rightarrow> [] | Some name \<Rightarrow> [Fclose name])"
  by (auto simp: rd_cleanup_def jpeg_destroy_decompress_def avifRGBImageFreePixels_def
      fclose_def avifFree_def owned_def fold_avifFree_heap Let_def split: option.splits)

lemma heap_ok_released:
  assumes "heap_ok w0 w own" and "heap_wf w0"
  shows "(if a \<in> own then None else heap w a) = heap w0 a"
proof (cases "a < brk w0")
  case True
  with assms(1) show ?thesis
    by (auto simp: heap_ok_def)
next
  case False
  with assms(2) have "heap w0 a = None"
    by (simp add: heap_wf_def)
  moreover from False assms(1) have "a \<notin> own \<Longrightarrow> heap w a = None"
    by (cases "heap w a") (auto simp: heap_ok_def not_less)
  ultimately show ?thesis
    by simp
qed

lemma rd_cleanup_released:
  assumes "accounted w0 name s" and "heap_wf w0"
  shows "\<exists>w'. rd_cleanup s = (ret s, avif s, w') \<and> heap w' = heap w0 \<and>
           handles w' = handles w0 \<and> sessions w' = sessions w0 \<and> files w' = files w0 \<and>
           calls w' = calls (world s) @ [Jpeg_destroy_decompress, Fclose name]"
proof -
  from rd_cleanup_world obtain w' where w': "rd_cleanup s = (ret s, avif s, w')"
    "\<forall>a. heap w' a = (if a \<in> owned s then None else heap (world s) a)"
    "handles w' = (case fp s of None \<Rightarrow> handles (world s)
                   | Some name \<Rightarrow> remove1 name (handles (world s)))"
    "sessions w' = (if mem (cinfo s) then sessions (world s) - 1 else sessions (world s))"
    "files w' = files (world s)"
    "calls w' = calls (world s) @ Jpeg_destroy_decompress
                  # (case fp s of None \<Rightarrow> [] | Some name \<Rightarrow> [Fclose name])"
    by blast
  from assms(1) have h: "heap_ok w0 (world s) (owned s)"
    by (simp add: accounted_def)
  have "heap w' = heap w0"
  proof
    fix a show "heap w' a = heap w0 a"
      using w'(2) heap_ok_released [OF h assms(2), of a] by simp
  qed
  with w' assms(1) show ?thesis
    by (auto simp: accounted_def)
qed

text \<open>A jump is preceded by the codec's message.\<close>

definition reported :: "rd \<Rightarrow> bool" where
  "reported s = (calls (world s) \<noteq> [] \<and> last (calls (world s)) = Output_message)"

definition anything :: "rd \<Rightarrow> bool" where
  "anything s = True"

lemma reported_steps:
  "triple anything (jpeg_create_decompress dec) anything G reported F"
  "triple anything (setup_read_icc_profile dec) anything G reported F"
  "triple anything (jpeg_stdio_src dec) anything G reported F"
  "triple anything (jpeg_read_header dec) anything G reported F"
  "triple anything set_out_color_space anything G reported F"
  "triple anything (jpeg_start_decompress dec) anything G reported F"
  "triple anything (alloc_sarray dec) anything G reported F"
  "triple anything (extract_icc dec) anything G reported True"
  "triple anything (set_image_fields fmt d) anything G reported F"
  "triple anything allocate_rgb anything G reported F"
  "triple anything (jpeg_read_scanlines dec) anything G reported True"
  "triple anything copy_row anything G reported True"
  "triple anything (convert_to_yuv lib) anything anything reported True"
  "triple anything (jpeg_finish_decompress dec) anything G reported F"
  "triple anything set_ret anything G reported F"
  by (auto simp: triple_def anything_def reported_def rd_step_defs Let_def
      split: option.splits prod.splits)

lemma avifJPEGRead_body_reported:
  "triple anything (avifJPEGRead_body lib dec fmt d) anything anything reported True"
  unfolding avifJPEGRead_body_def
  apply (rule triple_run_Cons, rule reported_steps)+
  apply (rule triple_run_Cons, rule scan_loop_triple, rule reported_steps, rule reported_steps)
   apply (simp add: anything_def)
  apply (rule triple_run_Cons, rule reported_steps)+
  apply (rule triple_run_Nil)
  done

text \<open>The function in terms of its body, once the file is open.\<close>

definition opened :: "string \<Rightarrow> world \<Rightarrow> world" where
  "opened name w0 = (note_call (Fopen name RB) w0)\<lparr>handles := name # handles w0\<rparr>"

definition rd_run ::
  "avif_library \<Rightarrow> (segment list \<Rightarrow> decoder) \<Rightarrow> string \<Rightarrow> avifImage \<Rightarrow> avifPixelFormat \<Rightarrow> uint32
     \<Rightarrow> world \<Rightarrow> rd flow" where
  "rd_run lib codec name img fmt d w0 =
     avifJPEGRead_body lib (codec (contents w0 name)) fmt d (rd_entry name img (opened name w0))"

lemma avifJPEGRead_run:
  "can_open w0 name RB \<Longrightarrow>
     avifJPEGRead lib codec name img fmt d w0 =
       (case rd_run lib codec name img fmt d w0 of
          Next s \<Rightarrow> Some (rd_cleanup s)
        | Goto_cleanup s \<Rightarrow> Some (rd_cleanup s)
        | Longjmp s \<Rightarrow> Some (rd_cleanup s)
        | Fault \<Rightarrow> None)"
  by (simp add: avifJPEGRead_def rd_run_def opened_def fopen_def Let_def contents_def)

lemma avifJPEGRead_outcome_run:
  "can_open w0 name RB \<Longrightarrow>
     avifJPEGRead_outcome lib codec name img fmt d w0 =
       (case rd_run lib codec name img fmt d w0 of
          Next s \<Rightarrow> Success
        | Goto_cleanup s \<Rightarrow> ConversionError
        | Longjmp s \<Rightarrow> CodecFatalError
        | Fault \<Rightarrow> Undefined_behaviour)"
  by (simp add: avifJPEGRead_outcome_def rd_run_def opened_def fopen_def Let_def contents_def)

lemma avifJPEGRead_outcome_IOError:
  "avifJPEGRead_outcome lib codec name img fmt d w0 = IOError \<longleftrightarrow> \<not> can_open w0 name RB"
  by (auto simp: avifJPEGRead_outcome_def fopen_def Let_def split: flow.splits)

lemma rd_run_image:
  "post (decoded (codec (contents w0 name)) fmt d img) (profiled (codec (contents w0 name)) img)
     unfinished True (rd_run lib codec name img fmt d w0)"
  unfolding rd_run_def
  by (rule tripleD [OF avifJPEGRead_body_image]) (simp add: running_def rd_entry_def)

lemma rd_run_accounted:
  "heap_wf w0 \<Longrightarrow>
     post (accounted w0 name) (accounted w0 name) (accounted w0 name) True
       (rd_run lib codec name img fmt d w0)"
  unfolding rd_run_def opened_def
  by (rule tripleD [OF avifJPEGRead_body_accounted]) (simp add: at_entry_def accounted_def
      owned_def rd_entry_def zero_rgb_def heap_ok_def heap_wf_def)

lemma rd_run_reported:
  "post anything anything reported True (rd_run lib codec name img fmt d w0)"
  unfolding rd_run_def
  by (rule tripleD [OF avifJPEGRead_body_reported]) (simp add: anything_def)

lemma avifJPEGRead_True:
  assumes "avifJPEGRead lib codec name img fmt d w0 = Some (True, img', w')"
  shows "fields_set (codec (contents w0 name)) fmt d img' \<and>
         icc img' = icc_read (codec (contents w0 name)) img"
proof -
  from assms have o: "can_open w0 name RB"
    by (auto simp: avifJPEGRead_def fopen_def Let_def split: if_splits)
  note r = assms [unfolded avifJPEGRead_run [OF o]]
  note p = rd_run_image [of codec w0 name fmt d img lib]
  show ?thesis
  proof (cases "rd_run lib codec name img fmt d w0")
    case (Next s)
    with r have "avif s = img'"
      by (simp add: rd_cleanup_def Let_def split: prod.splits)
    with p Next show ?thesis by (simp add: decoded_def)
  next
    case (Goto_cleanup s)
    with r have "ret s" by (simp add: rd_cleanup_def Let_def split: prod.splits)
    with p Goto_cleanup show ?thesis by (simp add: profiled_def)
  next
    case (Longjmp s)
    with r have "ret s" by (simp add: rd_cleanup_def Let_def split: prod.splits)
    with p Longjmp show ?thesis by (simp add: unfinished_def)
  next
    case Fault
    with r show ?thesis by simp
  qed
qed

section \<open>Properties of avifJPEGRead\<close>

text \<open>
  C3: after a successful decode the image has the width and height the codec reported,
  the requested depth (8 when 0 was requested), the requested chroma format, and its
  alpha is marked as not premultiplied.
\<close>

theorem avifJPEGRead_success_fields:
  assumes "avifJPEGRead lib codec inputFilename img requestedFormat requestedDepth w0
             = Some (True, img', w')"
  shows "avifImage.width img' = ucast (frame_width (codec (contents w0 inputFilename))) \<and>
         avifImage.height img' = ucast (frame_height (codec (contents w0 inputFilename))) \<and>
         avifImage.depth img' = (if requestedDepth = 0 then 8 else requestedDepth) \<and>
         yuvFormat img' = requestedFormat \<and>
         \<not> avifImage.alphaPremultiplied img'"
  using avifJPEGRead_True [OF assms] by (simp add: fields_set_def)

theorem avifJPEGRead_success_fields_witness:
  "\<exists>img' w'. avifJPEGRead ex_library stream_decoder ''in.jpg'' ex_image AVIF_PIXEL_FORMAT_YUV420 0 ex_world
       = Some (True, img', w') \<and>
     avifImage.width img' = 2 \<and> avifImage.height img' = 1 \<and> avifImage.depth img' = 8 \<and>
     yuvFormat img' = AVIF_PIXEL_FORMAT_YUV420 \<and> \<not> avifImage.alphaPremultiplied img'"
proof -
  let ?r = "avifJPEGRead ex_library stream_decoder ''in.jpg'' ex_image AVIF_PIXEL_FORMAT_YUV420 0 ex_world"
  have a: "?r \<noteq> None" by code_simp
  have b: "fst (the ?r)" by code_simp
  from a b obtain img' w' where e: "?r = Some (True, img', w')"
    by (cases ?r) auto
  have f: "frame_width (stream_decoder (contents ex_world ''in.jpg'')) = 2"
    "frame_height (stream_decoder (contents ex_world ''in.jpg'')) = 1"
    by code_simp+
  from avifJPEGRead_success_fields [OF e] e f show ?thesis
    by simp
qed

text \<open>
  C4: when the codec reports a fatal error during a decode, in whichever codec call, the
  error callback prints the message and the function continues at \<^verbatim>\<open>cleanup\<close>: it
  returns failure, the session is destroyed and the file closed (the last two calls it
  makes), and no session, file handle or heap block that was not there at entry is left:
  the ICC buffer and the pixel buffer are freed.
\<close>

theorem avifJPEGRead_fatal_error_cleanup:
  assumes "avifJPEGRead_outcome lib codec inputFilename img requestedFormat requestedDepth w0
             = CodecFatalError"
    and "heap_wf w0"
  shows "\<exists>img' w' cs.
           avifJPEGRead lib codec inputFilename img requestedFormat requestedDepth w0
             = Some (False, img', w') \<and>
           sessions w' = sessions w0 \<and> handles w' = handles w0 \<and> heap w' = heap w0 \<and>
           calls w' = cs @ [Output_message, Jpeg_destroy_decompress, Fclose inputFilename]"
proof -
  from assms(1) have o: "can_open w0 inputFilename RB"
    by (auto simp: avifJPEGRead_outcome_def fopen_def Let_def split: if_splits)
  from assms(1) obtain s where
    s: "rd_run lib codec inputFilename img requestedFormat requestedDepth w0 = Longjmp s"
    unfolding avifJPEGRead_outcome_run [OF o]
    by (cases "rd_run lib codec inputFilename img requestedFormat requestedDepth w0") auto
  from rd_run_image [of codec w0 inputFilename requestedFormat requestedDepth img lib] s
  have ret: "\<not> ret s"
    by (simp add: unfinished_def)
  from rd_run_accounted [OF assms(2), of inputFilename lib codec img requestedFormat requestedDepth] s
  have "accounted w0 inputFilename s"
    by simp
  from rd_cleanup_released [OF this assms(2)] obtain w' where
    w': "rd_cleanup s = (ret s, avif s, w')" "heap w' = heap w0" "handles w' = handles w0"
      "sessions w' = sessions w0"
      "calls w' = calls (world s) @ [Jpeg_destroy_decompress, Fclose inputFilename]"
    by blast
  from rd_run_reported [of lib codec inputFilename img requestedFormat requestedDepth w0] s
  have "calls (world s) = butlast (calls (world s)) @ [Output_message]"
    by (simp add: reported_def) (metis append_butlast_last_id)
  with w'(5) have "calls w' = butlast (calls (world s))
      @ [Output_message, Jpeg_destroy_decompress, Fclose inputFilename]"
    by simp
  with w' ret s show ?thesis
    by (auto simp: avifJPEGRead_run [OF o])
qed

definition truncated_codec :: "segment list \<Rightarrow> decoder" where
  "truncated_codec segs = (stream_decoder segs)\<lparr>raises := (\<lambda>c. c = Jpeg_read_scanlines 0)\<rparr>"

lemma heap_wf_ex_world: "heap_wf ex_world"
  by (simp add: heap_wf_def ex_world_def)

theorem avifJPEGRead_fatal_error_cleanup_witness:
  "avifJPEGRead_outcome ex_library truncated_codec ''in.jpg'' ex_image AVIF_PIXEL_FORMAT_YUV420 0 ex_world
     = CodecFatalError \<and>
   heap_wf ex_world \<and>
   (\<exists>img' w' cs.
      avifJPEGRead ex_library truncated_codec ''in.jpg'' ex_image AVIF_PIXEL_FORMAT_YUV420 0 ex_world
        = Some (False, img', w') \<and>
      sessions w' = 0 \<and> handles w' = [] \<and> heap w' = heap ex_world \<and>
      calls w' = cs @ [Output_message, Jpeg_destroy_decompress, Fclose ''in.jpg''])"
proof -
  have a: "avifJPEGRead_outcome ex_library truncated_codec ''in.jpg'' ex_image
      AVIF_PIXEL_FORMAT_YUV420 0 ex_world = CodecFatalError"
    by code_simp
  have b: "sessions ex_world = 0" "handles ex_world = []"
    by (simp_all add: ex_world_def)
  from avifJPEGRead_fatal_error_cleanup [OF a heap_wf_ex_world] a heap_wf_ex_world b
  show ?thesis
    by simp
qed

text \<open>
  C6: when the conversion to YUV fails, the function returns failure, the image's pixel
  planes are the ones it had at entry (nothing was stored into them), and its ICC profile
  is the one read from the stream, if the stream held one.
\<close>

theorem avifJPEGRead_conversion_failure:
  assumes "avifJPEGRead_outcome lib codec inputFilename img requestedFormat requestedDepth w0
             = ConversionError"
  shows "\<exists>img' w'.
           avifJPEGRead lib codec inputFilename img requestedFormat requestedDepth w0
             = Some (False, img', w') \<and>
           yuvPlanes img' = yuvPlanes img \<and>
           icc img' = icc_read (codec (contents w0 inputFilename)) img"
proof -
  from assms have o: "can_open w0 inputFilename RB"
    by (auto simp: avifJPEGRead_outcome_def fopen_def Let_def split: if_splits)
  from assms obtain s where
    s: "rd_run lib codec inputFilename img requestedFormat requestedDepth w0 = Goto_cleanup s"
    unfolding avifJPEGRead_outcome_run [OF o]
    by (cases "rd_run lib codec inputFilename img requestedFormat requestedDepth w0") auto
  from rd_run_image [of codec w0 inputFilename requestedFormat requestedDepth img lib] s
  have "profiled (codec (contents w0 inputFilename)) img s"
    by simp
  moreover from rd_cleanup_world obtain w' where "rd_cleanup s = (ret s, avif s, w')"
    by blast
  ultimately show ?thesis
    using s by (auto simp: avifJPEGRead_run [OF o] profiled_def)
qed

definition rejecting_library :: avif_library where
  "rejecting_library = ex_library\<lparr>avifImageRGBToYUV := (\<lambda>img r px. None)\<rparr>"

theorem avifJPEGRead_conversion_failure_witness:
  "avifJPEGRead_outcome rejecting_library stream_decoder ''in.jpg'' ex_image AVIF_PIXEL_FORMAT_YUV420 0
     ex_world = ConversionError \<and>
   (\<exists>img' w'.
      avifJPEGRead rejecting_library stream_decoder ''in.jpg'' ex_image AVIF_PIXEL_FORMAT_YUV420 0
        ex_world = Some (False, img', w') \<and>
      yuvPlanes img' = Some [16, 128, 128, 235, 128, 128] \<and> icc img' = [1, 2, 3])"
proof -
  have a: "avifJPEGRead_outcome rejecting_library stream_decoder ''in.jpg'' ex_image
      AVIF_PIXEL_FORMAT_YUV420 0 ex_world = ConversionError"
    by code_simp
  have b: "yuvPlanes ex_image = Some [16, 128, 128, 235, 128, 128]"
    "icc_read (stream_decoder (contents ex_world ''in.jpg'')) ex_image = [1, 2, 3]"
    by (code_simp, simp add: icc_read_def stream_decoder_def contents_def ex_world_def ex_stream_def)
  from avifJPEGRead_conversion_failure [OF a] a b show ?thesis
    by simp
qed

text \<open>
  C8: when the file cannot be opened for reading the function returns failure, the image
  is untouched, and the heap, the open handles, the codec sessions and the file system
  are as before; the only trace of the call is the failed \<^verbatim>\<open>fopen\<close>.
\<close>

theorem avifJPEGRead_cannot_open:
  assumes "\<not> can_open w0 inputFilename RB"
  shows "\<exists>w'. avifJPEGRead lib codec inputFilename img requestedFormat requestedDepth w0
             = Some (False, img, w') \<and>
           heap w' = heap w0 \<and> brk w' = brk w0 \<and> handles w' = handles w0 \<and>
           sessions w' = sessions w0 \<and> files w' = files w0 \<and>
           calls w' = calls w0 @ [Fopen inputFilename RB]"
  using assms by (simp add: avifJPEGRead_def fopen_def Let_def note_call_def)

theorem avifJPEGRead_cannot_open_witness:
  "\<not> can_open ex_world ''missing.jpg'' RB \<and>
   (\<exists>w'. avifJPEGRead ex_library stream_decoder ''missing.jpg'' ex_image AVIF_PIXEL_FORMAT_YUV420 0 ex_world
             = Some (False, ex_image, w') \<and>
          heap w' = heap ex_world \<and> brk w' = brk ex_world \<and> handles w' = [] \<and>
          sessions w' = 0 \<and> files w' = files ex_world \<and>
          calls w' = [Fopen ''missing.jpg'' RB])"
proof -
  have h: "\<not> can_open ex_world ''missing.jpg'' RB"
    by (simp add: ex_world_def)
  from avifJPEGRead_cannot_open [OF h, of ex_library stream_decoder ex_image AVIF_PIXEL_FORMAT_YUV420 0] h
  show ?thesis
    by (simp add: ex_world_def)
qed

section \<open>The output colour space of the decoder\<close>

text \<open>
  A list of calls respects the order when every call of \<^verbatim>\<open>jpeg_start_decompress\<close> in it
  is made with the output colour space set to \<^verbatim>\<open>JCS_RGB\<close>, and every call of
  \<^verbatim>\<open>jpeg_read_scanlines\<close> comes after such a call. The flag tells whether the
  decompression has been started.
\<close>

fun rgb_before_scan :: "bool \<Rightarrow> call list \<Rightarrow> bool" where
  "rgb_before_scan b [] = True"
| "rgb_before_scan b (Jpeg_start_decompress cs # rest) = (cs = JCS_RGB \<and> rgb_before_scan True rest)"
| "rgb_before_scan b (Jpeg_read_scanlines k # rest) = (b \<and> rgb_before_scan b rest)"
| "rgb_before_scan b (c # rest) = rgb_before_scan b rest"

text \<open>The same check as an automaton that reads one call at a time.\<close>

fun track :: "bool option \<Rightarrow> call \<Rightarrow> bool option" where
  "track None c = None"
| "track (Some b) (Jpeg_start_decompress cs) = (if cs = JCS_RGB then Some True else None)"
| "track (Some b) (Jpeg_read_scanlines k) = (if b then Some b else None)"
| "track (Some b) c = Some b"

lemma foldl_track_None [simp]: "foldl track None cs = None"
  by (induction cs) auto

lemma rgb_before_scan_track: "rgb_before_scan b cs \<longleftrightarrow> foldl track (Some b) cs \<noteq> None"
  by (induction b cs rule: rgb_before_scan.induct) auto

definition new_calls :: "world \<Rightarrow> rd \<Rightarrow> call list" where
  "new_calls w0 s = drop (length (calls w0)) (calls (world s))"

definition tracked :: "world \<Rightarrow> bool \<Rightarrow> rd \<Rightarrow> bool" where
  "tracked w0 b s =
     (length (calls w0) \<le> length (calls (world s)) \<and>
      foldl track (Some False) (new_calls w0 s) = Some b)"

definition in_order :: "world \<Rightarrow> rd \<Rightarrow> bool" where
  "in_order w0 s = (tracked w0 False s \<or> tracked w0 True s)"

definition rgb_chosen :: "world \<Rightarrow> rd \<Rightarrow> bool" where
  "rgb_chosen w0 s = (tracked w0 False s \<and> out_color_space (cinfo s) = JCS_RGB)"

lemma tracked_steps:
  "triple (tracked w0 False) (jpeg_create_decompress dec) (tracked w0 False) G (in_order w0) F"
  "triple (tracked w0 False) (setup_read_icc_profile dec) (tracked w0 False) G (in_order w0) F"
  "triple (tracked w0 False) (jpeg_stdio_src dec) (tracked w0 False) G (in_order w0) F"
  "triple (tracked w0 False) (jpeg_read_header dec) (tracked w0 False) G (in_order w0) F"
  "triple (tracked w0 False) set_out_color_space (rgb_chosen w0) G (in_order w0) F"
  "triple (rgb_chosen w0) (jpeg_start_decompress dec) (tracked w0 True) G (in_order w0) F"
  "triple (tracked w0 True) (alloc_sarray dec) (tracked w0 True) G (in_order w0) F"
  "triple (tracked w0 True) (extract_icc dec) (tracked w0 True) G (in_order w0) True"
  "triple (tracked w0 True) (set_image_fields fmt d) (tracked w0 True) G (in_order w0) F"
  "triple (tracked w0 True) allocate_rgb (tracked w0 True) G (in_order w0) F"
  "triple (tracked w0 True) (jpeg_read_scanlines dec) (tracked w0 True) G (in_order w0) True"
  "triple (tracked w0 True) copy_row (tracked w0 True) G (in_order w0) True"
  "triple (tracked w0 True) (convert_to_yuv lib) (tracked w0 True) (in_order w0) (in_order w0) True"
  "triple (tracked w0 True) (jpeg_finish_decompress dec) (tracked w0 True) G (in_order w0) F"
  "triple (tracked w0 True) set_ret (tracked w0 True) G (in_order w0) F"
  by (auto simp: triple_def tracked_def in_order_def rgb_chosen_def new_calls_def rd_step_defs
      Let_def avifAlloc_def read_icc_profile_def avifRGBImageAllocatePixels_def
      avifRGBImageSetDefaults_def
      dest: poke_frame memcpy_frame split: option.splits prod.splits)

lemma avifJPEGRead_body_tracked:
  "triple (tracked w0 False) (avifJPEGRead_body lib dec fmt d)
     (tracked w0 True) (in_order w0) (in_order w0) True"
  unfolding avifJPEGRead_body_def
  apply (rule triple_run_Cons, rule tracked_steps)+
  apply (rule triple_run_Cons, rule scan_loop_triple, rule tracked_steps, rule tracked_steps)
   apply (simp add: tracked_def new_calls_def)
  apply (rule triple_run_Cons, rule tracked_steps)+
  apply (rule triple_run_Nil)
  done

lemma track_needs_start:
  "foldl track (Some False) cs = Some True \<Longrightarrow> Jpeg_start_decompress JCS_RGB \<in> set cs"
proof (induction cs rule: rev_induct)
  case Nil
  then show ?case by simp
next
  case (snoc c cs)
  show ?case
  proof (cases "foldl track (Some False) cs")
    case None
    with snoc.prems show ?thesis by simp
  next
    case (Some b)
    show ?thesis
    proof (cases b)
      case True
      with Some snoc.IH show ?thesis by simp
    next
      case False
      with Some snoc.prems have "track (Some False) c = Some True" by simp
      then have "c = Jpeg_start_decompress JCS_RGB"
        by (cases c) (auto split: if_splits)
      then show ?thesis by simp
    qed
  qed
qed

lemma rd_cleanup_calls:
  "rd_cleanup s = (r, img', w') \<Longrightarrow>
     calls w' = calls (world s) @ Jpeg_destroy_decompress
                  # (case fp s of None \<Rightarrow> [] | Some name \<Rightarrow> [Fclose name])"
  using rd_cleanup_world [of s] by auto

lemma in_order_cleanup:
  assumes "in_order w0 s" and "rd_cleanup s = (r, img', w')"
  shows "rgb_before_scan False (drop (length (calls w0)) (calls w'))"
  using assms(1) rd_cleanup_calls [OF assms(2)]
  by (auto simp: in_order_def tracked_def new_calls_def rgb_before_scan_track
      split: option.splits)

lemma rd_run_tracked:
  "post (tracked w0 True) (in_order w0) (in_order w0) True (rd_run lib codec name img fmt d w0)"
  unfolding rd_run_def
  by (rule tripleD [OF avifJPEGRead_body_tracked])
     (simp add: tracked_def new_calls_def rd_entry_def opened_def)

text \<open>
  C9: whatever the codec does with the source and whatever colour space the frame has,
  among the calls \<^verbatim>\<open>avifJPEGRead\<close> makes every \<^verbatim>\<open>jpeg_start_decompress\<close> is called with
  the output colour space set to \<^verbatim>\<open>JCS_RGB\<close>, and no scanline is read before that call;
  a decode that ran to its end has made the call.
\<close>

theorem avifJPEGRead_decodes_to_rgb:
  assumes "avifJPEGRead lib codec inputFilename img requestedFormat requestedDepth w0
             = Some (r, img', w')"
  shows "rgb_before_scan False (drop (length (calls w0)) (calls w')) \<and>
         (r \<longrightarrow> Jpeg_start_decompress JCS_RGB \<in> set (drop (length (calls w0)) (calls w')))"
proof (cases "can_open w0 inputFilename RB")
  case False
  with assms show ?thesis
    by (auto simp: avifJPEGRead_def fopen_def Let_def)
next
  case True
  note run = assms [unfolded avifJPEGRead_run [OF True]]
  note p = rd_run_tracked [of w0 lib codec inputFilename img requestedFormat requestedDepth]
  note q = rd_run_image [of codec w0 inputFilename requestedFormat requestedDepth img lib]
  show ?thesis
  proof (cases "rd_run lib codec inputFilename img requestedFormat requestedDepth w0")
    case (Next s)
    with run have c: "rd_cleanup s = (r, img', w')" by simp
    from p Next have t: "tracked w0 True s" by simp
    then have "in_order w0 s" by (simp add: in_order_def)
    from in_order_cleanup [OF this c]
    have 1: "rgb_before_scan False (drop (length (calls w0)) (calls w'))" .
    from t have "Jpeg_start_decompress JCS_RGB \<in> set (new_calls w0 s)"
      by (simp add: tracked_def track_needs_start)
    with t rd_cleanup_calls [OF c] have 2: "Jpeg_start_decompress JCS_RGB
        \<in> set (drop (length (calls w0)) (calls w'))"
      by (auto simp: tracked_def new_calls_def)
    from 1 2 show ?thesis by simp
  next
    case (Goto_cleanup s)
    with run have c: "rd_cleanup s = (r, img', w')" by simp
    with q Goto_cleanup have "\<not> r"
      by (auto simp: profiled_def rd_cleanup_def Let_def split: prod.splits)
    moreover from p Goto_cleanup have "in_order w0 s" by simp
    ultimately show ?thesis
      using in_order_cleanup [OF _ c] by simp
  next
    case (Longjmp s)
    with run have c: "rd_cleanup s = (r, img', w')" by simp
    with q Longjmp have "\<not> r"
      by (auto simp: unfinished_def rd_cleanup_def Let_def split: prod.splits)
    moreover from p Longjmp have "in_order w0 s" by simp
    ultimately show ?thesis
      using in_order_cleanup [OF _ c] by simp
  next
    case Fault
    with run show ?thesis by simp
  qed
qed

text \<open>A stream whose frame is grayscale: the default output colour space would be grayscale.\<close>

definition gray_codec :: "segment list \<Rightarrow> decoder" where
  "gray_codec segs = (stream_decoder segs)\<lparr>frame_color_space := JCS_GRAYSCALE\<rparr>"

theorem avifJPEGRead_decodes_to_rgb_witness:
  "\<exists>img' w'.
     avifJPEGRead ex_library gray_codec ''in.jpg'' ex_image AVIF_PIXEL_FORMAT_YUV420 0 ex_world
       = Some (True, img', w') \<and>
     rgb_before_scan False (drop (length (calls ex_world)) (calls w')) \<and>
     Jpeg_start_decompress JCS_RGB \<in> set (drop (length (calls ex_world)) (calls w'))"
proof -
  let ?r = "avifJPEGRead ex_library gray_codec ''in.jpg'' ex_image AVIF_PIXEL_FORMAT_YUV420 0 ex_world"
  have a: "?r \<noteq> None" by code_simp
  have b: "fst (the ?r)" by code_simp
  from a b obtain img' w' where e: "?r = Some (True, img', w')"
    by (cases ?r) auto
  from avifJPEGRead_decodes_to_rgb [OF e] e show ?thesis
    by simp
qed

section \<open>Bounds of the scanline loop\<close>

lemma read_rows_post_guard:
  "triple (\<lambda>s. I s \<and> output_scanline (cinfo s) < output_height (cinfo s))
      (run [jpeg_read_scanlines dec, copy_row]) I G L F \<Longrightarrow> I s \<Longrightarrow>
     post (\<lambda>s. I s \<and> \<not> output_scanline (cinfo s) < output_height (cinfo s)) G L F
       (read_rows dec s)"
proof (induction dec s rule: read_rows.induct)
  case (1 dec s)
  let ?Q = "\<lambda>s. I s \<and> \<not> output_scanline (cinfo s) < output_height (cinfo s)"
  show ?case
  proof (cases "output_scanline (cinfo s) < output_height (cinfo s)")
    case False
    with "1.prems" show ?thesis by (simp add: read_rows.simps [of dec s])
  next
    case True
    with "1.prems" have p: "post I G L F (run [jpeg_read_scanlines dec, copy_row] s)"
      by (auto dest: tripleD)
    show ?thesis
    proof (cases "run [jpeg_read_scanlines dec, copy_row] s")
      case (Next s')
      with p have "I s'" by simp
      with "1.IH" [OF True Next "1.prems"(1)] have "post ?Q G L F (read_rows dec s')" .
      with True Next show ?thesis by (simp add: read_rows.simps [of dec s] del: run.simps)
    qed (use p True in \<open>simp_all add: read_rows.simps [of dec s] del: run.simps\<close>)
  qed
qed

text \<open>A pointer to a live block of a given length, allocated before the current break.\<close>

definition live_block :: "world \<Rightarrow> nat option \<Rightarrow> nat \<Rightarrow> bool" where
  "live_block w p n =
     (case p of
        None \<Rightarrow> False
      | Some a \<Rightarrow> a < brk w \<and> (case heap w a of None \<Rightarrow> False | Some b \<Rightarrow> length b = n))"

lemma live_block_note_call [simp]: "live_block (note_call c w) p n = live_block w p n"
  by (simp add: live_block_def split: option.splits)

lemma live_block_alloc_new: "avifAlloc n w = (a, w') \<Longrightarrow> live_block w' (Some a) n"
  by (auto simp: live_block_def avifAlloc_def)

lemma live_block_alloc_old:
  "avifAlloc m w = (a, w') \<Longrightarrow> live_block w p n \<Longrightarrow> live_block w' p n"
  by (auto simp: live_block_def avifAlloc_def split: option.splits)

lemma live_block_fill: "live_block w p n \<Longrightarrow> live_block (fill a bs w) p n"
  by (auto simp: live_block_def fill_def split: option.splits)

lemma live_block_poke:
  "poke q off bs w = Some w' \<Longrightarrow> live_block w p n \<Longrightarrow> live_block w' p n"
  by (auto simp: live_block_def poke_def split: option.splits if_splits)

lemma live_block_memcpy:
  "memcpy q q' k w = Some w' \<Longrightarrow> live_block w p n \<Longrightarrow> live_block w' p n"
  by (auto simp: memcpy_def split: option.splits dest: live_block_poke)

lemma poke_live_block:
  "live_block w p n \<Longrightarrow> off + length bs \<le> n \<Longrightarrow> poke p off bs w \<noteq> None"
  by (auto simp: live_block_def poke_def split: option.splits)

lemma memcpy_live_block:
  assumes "live_block w q m" and "k \<le> m" and "live_block w p n" and "off + k \<le> n"
  shows "memcpy (p, off) (q, 0) k w \<noteq> None"
proof -
  from assms(1,2) obtain bs where bs: "peek q 0 k w = Some bs" "length bs = k"
    by (auto simp: live_block_def peek_def split: option.splits)
  with assms(3,4) show ?thesis
    by (simp add: memcpy_def poke_live_block)
qed

text \<open>The arithmetic of the row offset: 32-bit products, a 16-bit width.\<close>

lemma unat_ucast_16: "unat (ucast (x :: 16 word) :: uint32) = unat x"
proof -
  have "unat x < 2 ^ 16"
    using unsigned_less [of x] by simp
  then have "take_bit 32 (unat x) = unat x"
    by (simp add: take_bit_nat_eq_self)
  then show ?thesis
    by (simp add: unsigned_ucast_eq)
qed

lemma unat_stride: "unat (ucast (x :: 16 word) * 3 :: uint32) = unat x * 3"
proof -
  have "unat x < 2 ^ 16"
    using unsigned_less [of x] by simp
  then have "unat x * 3 < (4294967296 :: nat)"
    by simp
  moreover have "unat (ucast x * 3 :: uint32) = (unat x * 3) mod 4294967296"
    by (simp add: unat_word_ariths unat_ucast_16)
  ultimately show ?thesis
    by simp
qed

lemma row_offset_in_bounds:
  fixes r h rb :: uint32
  assumes "r < h"
  shows "unat (r * rb) + unat rb \<le> unat rb * unat h"
proof -
  have "unat (r * rb) \<le> unat r * unat rb"
    by (simp add: unat_word_ariths)
  moreover from assms have "Suc (unat r) \<le> unat h"
    by (simp add: word_less_nat_alt)
  then have "Suc (unat r) * unat rb \<le> unat h * unat rb"
    by (rule mult_le_mono1)
  ultimately show ?thesis
    by (simp add: mult.commute)
qed

text \<open>The scanlines requested from the codec, in the order of the requests.\<close>

fun scan_indices :: "call list \<Rightarrow> nat list" where
  "scan_indices [] = []"
| "scan_indices (Jpeg_read_scanlines k # cs) = k # scan_indices cs"
| "scan_indices (c # cs) = scan_indices cs"

lemma scan_indices_append [simp]: "scan_indices (xs @ ys) = scan_indices xs @ scan_indices ys"
  by (induction xs rule: scan_indices.induct) auto

definition scanned :: "world \<Rightarrow> rd \<Rightarrow> bool" where
  "scanned w1 s =
     (length (calls w1) \<le> length (calls (world s)) \<and>
      scan_indices (new_calls w1 s) = [0..<unat (output_scanline (cinfo s))])"

definition measured :: "decoder \<Rightarrow> rd \<Rightarrow> bool" where
  "measured dec s =
     (output_width (cinfo s) = ucast (frame_width dec) \<and>
      output_height (cinfo s) = ucast (frame_height dec) \<and>
      output_components (cinfo s) = 3)"

definition unstarted :: "world \<Rightarrow> rd \<Rightarrow> bool" where
  "unstarted w1 s = (scanned w1 s \<and> output_scanline (cinfo s) = 0)"

definition rgb_set :: "world \<Rightarrow> rd \<Rightarrow> bool" where
  "rgb_set w1 s = (unstarted w1 s \<and> out_color_space (cinfo s) = JCS_RGB)"

definition row_buffer :: "decoder \<Rightarrow> rd \<Rightarrow> bool" where
  "row_buffer dec s =
     (measured dec s \<and> row_stride s = ucast (frame_width dec) * 3 \<and>
      live_block (world s) (buffer s) (unat (frame_width dec) * 3))"

definition pixel_buffer :: "decoder \<Rightarrow> rd \<Rightarrow> bool" where
  "pixel_buffer dec s =
     (rowBytes (rgb s) = ucast (frame_width dec) * 3 \<and>
      live_block (world s) (pixels (rgb s))
        (unat (frame_width dec) * 3 * unat (frame_height dec)))"

definition sized :: "decoder \<Rightarrow> rd \<Rightarrow> bool" where
  "sized dec s =
     (avifImage.width (avif s) = ucast (frame_width dec) \<and>
      avifImage.height (avif s) = ucast (frame_height dec))"

definition between_rows :: "decoder \<Rightarrow> world \<Rightarrow> rd \<Rightarrow> bool" where
  "between_rows dec w1 s =
     (scanned w1 s \<and> row_buffer dec s \<and> pixel_buffer dec s \<and>
      row s = output_scanline (cinfo s) \<and> output_scanline (cinfo s) \<le> output_height (cinfo s))"

definition within_row :: "decoder \<Rightarrow> world \<Rightarrow> rd \<Rightarrow> bool" where
  "within_row dec w1 s =
     (scanned w1 s \<and> row_buffer dec s \<and> pixel_buffer dec s \<and>
      row s + 1 = output_scanline (cinfo s) \<and> row s < output_height (cinfo s) \<and>
      output_scanline (cinfo s) \<le> output_height (cinfo s))"

definition all_rows :: "decoder \<Rightarrow> world \<Rightarrow> rd \<Rightarrow> bool" where
  "all_rows dec w1 s =
     (row_buffer dec s \<and> pixel_buffer dec s \<and> row s = output_height (cinfo s) \<and>
      length (calls w1) \<le> length (calls (world s)) \<and>
      scan_indices (new_calls w1 s) = [0..<unat (frame_height dec)])"

lemma unstarted_steps:
  "triple (unstarted w1) (jpeg_create_decompress dec) (unstarted w1) G anything False"
  "triple (unstarted w1) (setup_read_icc_profile dec) (unstarted w1) G anything False"
  "triple (unstarted w1) (jpeg_stdio_src dec) (unstarted w1) G anything False"
  "triple (unstarted w1) (jpeg_read_header dec) (unstarted w1) G anything False"
  "triple (unstarted w1) set_out_color_space (rgb_set w1) G anything False"
  "triple (rgb_set w1) (jpeg_start_decompress dec)
     (\<lambda>s. unstarted w1 s \<and> measured dec s) G anything False"
  by (auto simp: triple_def unstarted_def rgb_set_def scanned_def measured_def anything_def
      new_calls_def components_of_def rd_step_defs Let_def)

lemma alloc_sarray_row_buffer:
  "triple (\<lambda>s. unstarted w1 s \<and> measured dec s) (alloc_sarray dec)
     (\<lambda>s. unstarted w1 s \<and> row_buffer dec s) G anything False"
proof (rule tripleI)
  fix s assume p: "unstarted w1 s \<and> measured dec s"
  let ?s1 = "s\<lparr>row_stride := output_width (cinfo s) * word_of_int (output_components (cinfo s)),
                world := note_call Alloc_sarray (world s)\<rparr>"
  from p have st: "row_stride ?s1 = ucast (frame_width dec) * 3"
    by (simp add: measured_def)
  obtain a w2 where al: "avifAlloc (unat (row_stride ?s1)) (world ?s1) = (a, w2)"
    by (cases "avifAlloc (unat (row_stride ?s1)) (world ?s1)")
  from live_block_alloc_new [OF al] st
  have "live_block w2 (Some a) (unat (frame_width dec) * 3)"
    by (simp add: unat_stride)
  with p al avifAlloc_frame [OF al]
  show "post (\<lambda>s. unstarted w1 s \<and> row_buffer dec s) G anything False (alloc_sarray dec s)"
    by (auto simp: alloc_sarray_def codec_call_def my_error_exit_def Let_def anything_def
        unstarted_def scanned_def new_calls_def measured_def row_buffer_def)
qed

lemma extract_icc_row_buffer:
  "triple (\<lambda>s. unstarted w1 s \<and> row_buffer dec s) (extract_icc dec)
     (\<lambda>s. unstarted w1 s \<and> row_buffer dec s) G L False"
proof (rule tripleI)
  fix s assume p: "unstarted w1 s \<and> row_buffer dec s"
  show "post (\<lambda>s. unstarted w1 s \<and> row_buffer dec s) G L False (extract_icc dec s)"
  proof (cases "profile dec")
    case None
    with p show ?thesis
      by (auto simp: extract_icc_def read_icc_profile_def Let_def unstarted_def scanned_def
          new_calls_def row_buffer_def measured_def)
  next
    case (Some bs)
    obtain a w2 where al: "avifAlloc (length bs) (note_call Read_icc_profile (world s)) = (a, w2)"
      by (cases "avifAlloc (length bs) (note_call Read_icc_profile (world s))")
    from p have "live_block (note_call Read_icc_profile (world s)) (buffer s)
        (unat (frame_width dec) * 3)"
      by (simp add: row_buffer_def)
    from live_block_alloc_old [OF al this]
    have 1: "live_block (fill a bs w2) (buffer s) (unat (frame_width dec) * 3)"
      by (rule live_block_fill)
    from live_block_alloc_new [OF al] have "live_block (fill a bs w2) (Some a) (length bs)"
      by (rule live_block_fill)
    then have 2: "peek (Some a) 0 (unat (of_nat (length bs) :: uint32)) (fill a bs w2) \<noteq> None"
      using unat_of_nat_le [of "length bs"]
      by (auto simp: live_block_def peek_def split: option.splits)
    from p Some al 1 2 avifAlloc_frame [OF al] show ?thesis
      by (auto simp: extract_icc_def read_icc_profile_def Let_def unstarted_def scanned_def
          new_calls_def row_buffer_def measured_def)
  qed
qed

lemma set_image_fields_sized:
  "triple (\<lambda>s. unstarted w1 s \<and> row_buffer dec s) (set_image_fields fmt d)
     (\<lambda>s. unstarted w1 s \<and> row_buffer dec s \<and> sized dec s) G L False"
  by (auto simp: triple_def set_image_fields_def unstarted_def scanned_def new_calls_def
      row_buffer_def measured_def sized_def)

lemma allocate_rgb_pixel_buffer:
  "triple (\<lambda>s. unstarted w1 s \<and> row_buffer dec s \<and> sized dec s) allocate_rgb
     (\<lambda>s. unstarted w1 s \<and> row_buffer dec s \<and> pixel_buffer dec s) G L False"
proof (rule tripleI)
  fix s assume p: "unstarted w1 s \<and> row_buffer dec s \<and> sized dec s"
  let ?r1 = "(avifRGBImageSetDefaults (avif s))\<lparr>format := AVIF_RGB_FORMAT_RGB, avifRGBImage.depth := 8\<rparr>"
  let ?rb = "avifRGBImage.width ?r1 * avifRGBImagePixelSize ?r1"
  from p have rb: "?rb = ucast (frame_width dec) * 3"
    and h: "avifRGBImage.height ?r1 = ucast (frame_height dec)"
    by (simp_all add: sized_def avifRGBImageSetDefaults_def avifRGBImagePixelSize_def)
  obtain a w2 where al: "avifAlloc (unat ?rb * unat (avifRGBImage.height ?r1)) (world s) = (a, w2)"
    by (cases "avifAlloc (unat ?rb * unat (avifRGBImage.height ?r1)) (world s)")
  from live_block_alloc_new [OF al]
  have 1: "live_block w2 (Some a) (unat (frame_width dec) * 3 * unat (frame_height dec))"
    by (simp only: rb h unat_stride unat_ucast_16)
  from p have "live_block (world s) (buffer s) (unat (frame_width dec) * 3)"
    by (simp add: row_buffer_def)
  from live_block_alloc_old [OF al this]
  have 2: "live_block w2 (buffer s) (unat (frame_width dec) * 3)" .
  have "allocate_rgb s = Next (s\<lparr>rgb := ?r1\<lparr>rowBytes := ?rb, pixels := Some a\<rparr>, world := w2\<rparr>)"
    using al by (simp add: allocate_rgb_def avifRGBImageAllocatePixels_def Let_def
        avifRGBImageSetDefaults_def)
  with p 1 2 rb avifAlloc_frame [OF al]
  show "post (\<lambda>s. unstarted w1 s \<and> row_buffer dec s \<and> pixel_buffer dec s) G L False
      (allocate_rgb s)"
    by (simp add: unstarted_def scanned_def new_calls_def row_buffer_def measured_def
        pixel_buffer_def)
qed

lemma jpeg_read_scanlines_within_row:
  "triple (\<lambda>s. between_rows dec w1 s \<and> output_scanline (cinfo s) < output_height (cinfo s))
     (jpeg_read_scanlines dec) (within_row dec w1) G anything False"
proof (rule tripleI)
  fix s
  assume p: "between_rows dec w1 s \<and> output_scanline (cinfo s) < output_height (cinfo s)"
  let ?c = "Jpeg_read_scanlines (unat (output_scanline (cinfo s)))"
  let ?s1 = "s\<lparr>world := note_call ?c (world s)\<rparr>"
  let ?line = "map (samples dec (out_color_space (cinfo s)) (unat (output_scanline (cinfo s))))
      [0..<unat (output_width (cinfo s)) * nat (output_components (cinfo s))]"
  from p have len: "length ?line = unat (frame_width dec) * 3"
    by (simp add: between_rows_def row_buffer_def measured_def unat_ucast_16)
  from p have lb: "live_block (world ?s1) (buffer s) (unat (frame_width dec) * 3)"
    by (simp add: between_rows_def row_buffer_def)
  from poke_live_block [OF lb, of 0 ?line] len
  have "poke (buffer s) 0 ?line (world ?s1) \<noteq> None"
    by simp
  then obtain w2 where w2: "poke (buffer s) 0 ?line (world ?s1) = Some w2"
    by auto
  from p have inc: "unat (output_scanline (cinfo s) + 1) = Suc (unat (output_scanline (cinfo s)))"
    by (auto intro: unat_inc)
  from p have le: "output_scanline (cinfo s) + 1 \<le> output_height (cinfo s)"
    by (auto intro: inc_le)
  from p have pb: "live_block (world ?s1) (pixels (rgb s))
      (unat (frame_width dec) * 3 * unat (frame_height dec))"
    by (simp add: between_rows_def pixel_buffer_def)
  show "post (within_row dec w1) G anything False (jpeg_read_scanlines dec s)"
  proof (cases "raises dec ?c")
    case True
    then show ?thesis
      by (simp add: jpeg_read_scanlines_def codec_call_def my_error_exit_def Let_def anything_def)
  next
    case False
    with w2 have "jpeg_read_scanlines dec s =
        Next (s\<lparr>cinfo := (cinfo s)\<lparr>output_scanline := output_scanline (cinfo s) + 1\<rparr>, world := w2\<rparr>)"
      by (simp add: jpeg_read_scanlines_def codec_call_def Let_def)
    with p inc le poke_frame [OF w2] live_block_poke [OF w2 lb] live_block_poke [OF w2 pb]
    show ?thesis
      by (auto simp: within_row_def between_rows_def scanned_def new_calls_def row_buffer_def
          pixel_buffer_def measured_def)
  qed
qed

lemma copy_row_between_rows:
  "triple (within_row dec w1) copy_row (between_rows dec w1) G L False"
proof (rule tripleI)
  fix s assume p: "within_row dec w1 s"
  let ?rb = "rowBytes (rgb s)"
  from p have rb: "unat ?rb = unat (frame_width dec) * 3"
    by (simp add: within_row_def pixel_buffer_def unat_stride)
  from p have lb: "live_block (world s) (buffer s) (unat ?rb)"
    by (simp add: within_row_def row_buffer_def rb)
  from p have "live_block (world s) (pixels (rgb s))
      (unat (frame_width dec) * 3 * unat (frame_height dec))"
    by (simp add: within_row_def pixel_buffer_def)
  moreover from p have "unat (output_height (cinfo s)) = unat (frame_height dec)"
    by (simp add: within_row_def row_buffer_def measured_def unat_ucast_16)
  ultimately have pb: "live_block (world s) (pixels (rgb s))
      (unat ?rb * unat (output_height (cinfo s)))"
    by (simp only: rb)
  from p have "row s < output_height (cinfo s)"
    by (simp add: within_row_def)
  then have "unat (row s * ?rb) + unat ?rb \<le> unat ?rb * unat (output_height (cinfo s))"
    by (rule row_offset_in_bounds)
  from memcpy_live_block [OF lb _ pb this]
  have "memcpy (pixels (rgb s), unat (row s * ?rb)) (buffer s, 0) (unat ?rb) (world s) \<noteq> None"
    by simp
  then obtain w2 where
    w2: "memcpy (pixels (rgb s), unat (row s * ?rb)) (buffer s, 0) (unat ?rb) (world s) = Some w2"
    by auto
  then have "copy_row s = Next (s\<lparr>row := row s + 1, world := w2\<rparr>)"
    by (simp add: copy_row_def Let_def)
  moreover from p have "live_block (world s) (buffer s) (unat (frame_width dec) * 3)"
    "live_block (world s) (pixels (rgb s)) (unat (frame_width dec) * 3 * unat (frame_height dec))"
    by (simp_all add: within_row_def row_buffer_def pixel_buffer_def)
  note live_block_memcpy [OF w2 this(1)] live_block_memcpy [OF w2 this(2)]
  ultimately show "post (between_rows dec w1) G L False (copy_row s)"
    using p memcpy_frame [OF w2]
    by (auto simp: within_row_def between_rows_def scanned_def new_calls_def row_buffer_def
        pixel_buffer_def measured_def)
qed

lemma scan_loop_all_rows:
  "triple (\<lambda>s. unstarted w1 s \<and> row_buffer dec s \<and> pixel_buffer dec s) (scan_loop dec)
     (all_rows dec w1) G anything False"
proof (rule tripleI)
  fix s assume p: "unstarted w1 s \<and> row_buffer dec s \<and> pixel_buffer dec s"
  then have i: "between_rows dec w1 (s\<lparr>row := 0\<rparr>)"
    by (simp add: between_rows_def unstarted_def scanned_def new_calls_def row_buffer_def
        pixel_buffer_def measured_def)
  have "triple (\<lambda>s. between_rows dec w1 s \<and> output_scanline (cinfo s) < output_height (cinfo s))
      (run [jpeg_read_scanlines dec, copy_row]) (between_rows dec w1) G anything False"
    by (rule triple_run_Cons [OF jpeg_read_scanlines_within_row],
        rule triple_run_Cons [OF copy_row_between_rows], rule triple_run_Nil)
  from read_rows_post_guard [OF this i]
  have "post (\<lambda>s. between_rows dec w1 s \<and> \<not> output_scanline (cinfo s) < output_height (cinfo s))
      G anything False (scan_loop dec s)"
    by (simp add: scan_loop_def)
  moreover have "all_rows dec w1 t"
    if "between_rows dec w1 t \<and> \<not> output_scanline (cinfo t) < output_height (cinfo t)" for t
  proof -
    from that have "output_scanline (cinfo t) = output_height (cinfo t)"
      by (auto simp: between_rows_def)
    with that show ?thesis
      by (simp add: all_rows_def between_rows_def scanned_def row_buffer_def measured_def
          unat_ucast_16)
  qed
  ultimately show "post (all_rows dec w1) G anything False (scan_loop dec s)"
    by (cases "scan_loop dec s") auto
qed

lemma all_rows_steps:
  "triple (all_rows dec w1) (convert_to_yuv lib) (all_rows dec w1) (all_rows dec w1) L False"
  "triple (all_rows dec w1) (jpeg_finish_decompress dec) (all_rows dec w1) G anything False"
  "triple (all_rows dec w1) set_ret (all_rows dec w1) G anything False"
  by (auto simp: triple_def all_rows_def row_buffer_def pixel_buffer_def measured_def
      anything_def new_calls_def live_block_def rd_step_defs Let_def split: option.splits)

lemma avifJPEGRead_body_bounds:
  "triple (unstarted w1) (avifJPEGRead_body lib dec fmt d)
     (all_rows dec w1) (all_rows dec w1) anything False"
  unfolding avifJPEGRead_body_def
  apply (rule triple_run_Cons, rule unstarted_steps)+
  apply (rule triple_run_Cons, rule alloc_sarray_row_buffer)
  apply (rule triple_run_Cons, rule extract_icc_row_buffer)
  apply (rule triple_run_Cons, rule set_image_fields_sized)
  apply (rule triple_run_Cons, rule allocate_rgb_pixel_buffer)
  apply (rule triple_run_Cons, rule scan_loop_all_rows)
  apply (rule triple_run_Cons, rule all_rows_steps)+
  apply (rule triple_run_Nil)
  done

lemma unstarted_rd_entry: "unstarted w1 (rd_entry name img w1)"
  by (simp add: unstarted_def scanned_def new_calls_def rd_entry_def)

text \<open>No call of the function has undefined behaviour.\<close>

lemma avifJPEGRead_defined: "avifJPEGRead lib codec name img fmt d w0 \<noteq> None"
proof (cases "can_open w0 name RB")
  case False
  then show ?thesis
    by (simp add: avifJPEGRead_def fopen_def Let_def)
next
  case True
  have "post (all_rows (codec (contents w0 name)) (opened name w0))
      (all_rows (codec (contents w0 name)) (opened name w0)) anything False
      (rd_run lib codec name img fmt d w0)"
    unfolding rd_run_def
    by (rule tripleD [OF avifJPEGRead_body_bounds unstarted_rd_entry])
  then have "rd_run lib codec name img fmt d w0 \<noteq> Fault"
    by auto
  then show ?thesis
    by (cases "rd_run lib codec name img fmt d w0") (simp_all add: avifJPEGRead_run [OF True])
qed

section \<open>Where the scanline loop stores the rows\<close>

text \<open>A second assertion proved of a statement on top of a first one.\<close>

lemma triple_strengthen:
  assumes "triple P c Q G L F"
    and "triple (\<lambda>s. P s \<and> P' s) c Q' G (\<lambda>s. True) True"
  shows "triple (\<lambda>s. P s \<and> P' s) c (\<lambda>s. Q s \<and> Q' s) G L F"
proof (rule tripleI)
  fix s assume "P s \<and> P' s"
  with assms have "post Q G L F (c s)" "post Q' G (\<lambda>s. True) True (c s)"
    by (auto dest: tripleD)
  then show "post (\<lambda>s. Q s \<and> Q' s) G L F (c s)"
    by (cases "c s") auto
qed

lemma triple_conj:
  assumes "triple P c Q G L F"
    and "triple (\<lambda>s. P s \<and> P' s) c Q' G' (\<lambda>s. True) True"
  shows "triple (\<lambda>s. P s \<and> P' s) c (\<lambda>s. Q s \<and> Q' s) (\<lambda>s. G s \<and> G' s) L F"
proof (rule tripleI)
  fix s assume "P s \<and> P' s"
  with assms have "post Q G L F (c s)" "post Q' G' (\<lambda>s. True) True (c s)"
    by (auto dest: tripleD)
  then show "post (\<lambda>s. Q s \<and> Q' s) (\<lambda>s. G s \<and> G' s) L F (c s)"
    by (cases "c s") auto
qed

lemma triple_weaken: "(\<And>s. P' s \<Longrightarrow> P s) \<Longrightarrow> triple P c Q G L F \<Longrightarrow> triple P' c Q G L F"
  by (simp add: triple_def)

text \<open>The bytes of the block a pointer refers to.\<close>

definition block :: "world \<Rightarrow> nat option \<Rightarrow> byte list" where
  "block w p =
     (case p of None \<Rightarrow> [] | Some a \<Rightarrow> (case heap w a of None \<Rightarrow> [] | Some b \<Rightarrow> b))"

lemma block_note_call [simp]: "block (note_call c w) p = block w p"
  by (simp add: block_def note_call_def split: option.splits)

lemma live_block_length: "live_block w p n \<Longrightarrow> length (block w p) = n"
  by (auto simp: live_block_def block_def split: option.splits)

lemma live_block_heap: "live_block w p n \<Longrightarrow> \<exists>a. p = Some a \<and> heap w a = Some (block w p)"
  by (auto simp: live_block_def block_def split: option.splits)

lemma block_poke_same:
  "poke p off bs w = Some w' \<Longrightarrow>
     block w' p = take off (block w p) @ bs @ drop (off + length bs) (block w p) \<and>
     off + length bs \<le> length (block w p)"
  by (auto simp: poke_def block_def split: option.splits if_splits)

lemma block_poke_other: "poke p off bs w = Some w' \<Longrightarrow> q \<noteq> p \<Longrightarrow> block w' q = block w q"
  by (auto simp: poke_def block_def split: option.splits if_splits)

lemma peek_block: "peek p off n w = Some bs \<Longrightarrow> bs = take n (drop off (block w p))"
  by (auto simp: peek_def block_def split: option.splits if_splits)

lemma take_drop_stored:
  "off + length bs \<le> length b \<Longrightarrow> take (length bs) (drop off (take off b @ bs @ rest)) = bs"
  by simp

lemma take_stored:
  "off + length bs \<le> length b \<Longrightarrow> take (off + length bs) (take off b @ bs @ rest) = take off b @ bs"
  by simp

text \<open>
  The samples the codec delivers for scanline \<open>j\<close> of a frame decoded to RGB, three per
  pixel.
\<close>

definition scanline :: "decoder \<Rightarrow> nat \<Rightarrow> byte list" where
  "scanline dec j = map (samples dec JCS_RGB j) [0..<unat (frame_width dec) * 3]"

lemma length_scanline [simp]: "length (scanline dec j) = unat (frame_width dec) * 3"
  by (simp add: scanline_def)

text \<open>
  The offset of the last row, \<^verbatim>\<open>(output_height - 1) * rowBytes\<close>, fits the 32 bits in which
  line 96 computes \<^verbatim>\<open>row * rgb.rowBytes\<close>.
\<close>

definition unwrapped :: "decoder \<Rightarrow> bool" where
  "unwrapped dec = ((unat (frame_height dec) - 1) * (unat (frame_width dec) * 3) < 2 ^ 32)"

definition rgb_out :: "rd \<Rightarrow> bool" where
  "rgb_out s = (out_color_space (cinfo s) = JCS_RGB)"

definition apart :: "rd \<Rightarrow> bool" where
  "apart s = (rgb_out s \<and> buffer s \<noteq> pixels (rgb s))"

text \<open>
  Between two iterations: the row copied last lies at the offset line 96 computed for it,
  and as long as the offsets fit 32 bits the first \<^verbatim>\<open>row\<close> rows of the pixel buffer are
  the scanlines 0 to \<^verbatim>\<open>row - 1\<close>.
\<close>

definition stored :: "decoder \<Rightarrow> rd \<Rightarrow> bool" where
  "stored dec s =
     (apart s \<and>
      (row s \<noteq> 0 \<longrightarrow>
         take (unat (rowBytes (rgb s)))
            (drop (unat ((row s - 1) * rowBytes (rgb s))) (block (world s) (pixels (rgb s))))
           = scanline dec (unat (row s - 1))) \<and>
      (unwrapped dec \<longrightarrow>
         take (unat (row s) * unat (rowBytes (rgb s))) (block (world s) (pixels (rgb s)))
           = concat (map (scanline dec) [0..<unat (row s)])))"

definition fetched :: "decoder \<Rightarrow> rd \<Rightarrow> bool" where
  "fetched dec s = (stored dec s \<and> block (world s) (buffer s) = scanline dec (unat (row s)))"

lemma rgb_out_steps:
  "triple (\<lambda>s. unstarted w1 s \<and> True) (jpeg_create_decompress dec) (\<lambda>s. True) G (\<lambda>s. True) True"
  "triple (\<lambda>s. unstarted w1 s \<and> True) (setup_read_icc_profile dec) (\<lambda>s. True) G (\<lambda>s. True) True"
  "triple (\<lambda>s. unstarted w1 s \<and> True) (jpeg_stdio_src dec) (\<lambda>s. True) G (\<lambda>s. True) True"
  "triple (\<lambda>s. unstarted w1 s \<and> True) (jpeg_read_header dec) (\<lambda>s. True) G (\<lambda>s. True) True"
  "triple (\<lambda>s. unstarted w1 s \<and> True) set_out_color_space rgb_out G (\<lambda>s. True) True"
  "triple (\<lambda>s. rgb_set w1 s \<and> rgb_out s) (jpeg_start_decompress dec) rgb_out G (\<lambda>s. True) True"
  "triple (\<lambda>s. (unstarted w1 s \<and> measured dec s) \<and> rgb_out s) (alloc_sarray dec) rgb_out G
     (\<lambda>s. True) True"
  "triple (\<lambda>s. (unstarted w1 s \<and> row_buffer dec s) \<and> rgb_out s) (extract_icc dec) rgb_out G
     (\<lambda>s. True) True"
  "triple (\<lambda>s. (unstarted w1 s \<and> row_buffer dec s) \<and> rgb_out s) (set_image_fields fmt d) rgb_out G
     (\<lambda>s. True) True"
  by (auto simp: triple_def rgb_out_def rd_step_defs read_icc_profile_def Let_def
      split: prod.splits option.splits)

lemma allocate_rgb_apart:
  "triple (\<lambda>s. (unstarted w1 s \<and> row_buffer dec s \<and> sized dec s) \<and> rgb_out s) allocate_rgb
     apart G (\<lambda>s. True) True"
  by (auto simp: triple_def apart_def rgb_out_def row_buffer_def live_block_def allocate_rgb_def
      avifRGBImageAllocatePixels_def avifRGBImageSetDefaults_def avifAlloc_def Let_def
      split: option.splits prod.splits)

lemma jpeg_read_scanlines_fetched:
  "triple (\<lambda>s. (between_rows dec w1 s \<and> output_scanline (cinfo s) < output_height (cinfo s)) \<and>
               stored dec s)
     (jpeg_read_scanlines dec) (fetched dec) G (\<lambda>s. True) True"
proof (rule tripleI)
  fix s
  assume p: "(between_rows dec w1 s \<and> output_scanline (cinfo s) < output_height (cinfo s)) \<and>
      stored dec s"
  let ?c = "Jpeg_read_scanlines (unat (output_scanline (cinfo s)))"
  let ?w1 = "note_call ?c (world s)"
  let ?line = "map (samples dec (out_color_space (cinfo s)) (unat (output_scanline (cinfo s))))
      [0..<unat (output_width (cinfo s)) * nat (output_components (cinfo s))]"
  from p have line: "?line = scanline dec (unat (row s))"
    by (simp add: between_rows_def row_buffer_def measured_def stored_def apart_def rgb_out_def
        scanline_def unat_ucast_16)
  from p have lb: "live_block (world s) (buffer s) (unat (frame_width dec) * 3)"
    by (simp add: between_rows_def row_buffer_def)
  from p have ne: "pixels (rgb s) \<noteq> buffer s"
    by (auto simp: stored_def apart_def)
  show "post (fetched dec) G (\<lambda>s. True) True (jpeg_read_scanlines dec s)"
  proof (cases "jpeg_read_scanlines dec s")
    case (Next s')
    then obtain w2 where w2: "poke (buffer s) 0 ?line ?w1 = Some w2"
      and s': "s' = s\<lparr>cinfo := (cinfo s)\<lparr>output_scanline := output_scanline (cinfo s) + 1\<rparr>,
                      world := w2\<rparr>"
      by (auto simp: jpeg_read_scanlines_def codec_call_def my_error_exit_def Let_def
          split: if_splits option.splits)
    from block_poke_same [OF w2] live_block_length [OF lb] line
    have 1: "block w2 (buffer s) = scanline dec (unat (row s))"
      by simp
    from block_poke_other [OF w2 ne]
    have 2: "block w2 (pixels (rgb s)) = block (world s) (pixels (rgb s))"
      by simp
    from p 1 2 have "fetched dec s'"
      by (simp add: s' fetched_def stored_def apart_def rgb_out_def)
    with Next show ?thesis
      by simp
  next
    case (Goto_cleanup s')
    then show ?thesis
      by (auto simp: jpeg_read_scanlines_def codec_call_def my_error_exit_def Let_def
          split: if_splits option.splits)
  qed simp_all
qed

lemma copy_row_stored:
  "triple (\<lambda>s. within_row dec w1 s \<and> fetched dec s) copy_row (stored dec) G (\<lambda>s. True) True"
proof (rule tripleI)
  fix s assume p: "within_row dec w1 s \<and> fetched dec s"
  let ?rb = "rowBytes (rgb s)"
  let ?off = "unat (row s * ?rb)"
  let ?b = "block (world s) (pixels (rgb s))"
  let ?line = "scanline dec (unat (row s))"
  from p have rb: "unat ?rb = unat (frame_width dec) * 3"
    by (simp add: within_row_def pixel_buffer_def unat_stride)
  then have len: "length ?line = unat ?rb"
    by simp
  from p have lt: "row s < output_height (cinfo s)"
    by (simp add: within_row_def)
  then have inc: "unat (row s + 1) = Suc (unat (row s))"
    by (rule unat_inc)
  show "post (stored dec) G (\<lambda>s. True) True (copy_row s)"
  proof (cases "copy_row s")
    case (Next s')
    then obtain w2 where
      m: "memcpy (pixels (rgb s), ?off) (buffer s, 0) (unat ?rb) (world s) = Some w2"
      and s': "s' = s\<lparr>row := row s + 1, world := w2\<rparr>"
      by (auto simp: copy_row_def Let_def split: option.splits)
    from m obtain bs where pk: "peek (buffer s) 0 (unat ?rb) (world s) = Some bs"
      and po: "poke (pixels (rgb s)) ?off bs (world s) = Some w2"
      by (auto simp: memcpy_def split: option.splits)
    from peek_block [OF pk] p len have bs: "bs = ?line"
      by (simp add: fetched_def)
    from block_poke_same [OF po]
    have nb: "block w2 (pixels (rgb s)) = take ?off ?b @ ?line @ drop (?off + length ?line) ?b"
      and fit: "?off + length ?line \<le> length ?b"
      by (simp_all add: bs)
    have last: "take (unat ?rb) (drop ?off (block w2 (pixels (rgb s)))) = ?line"
      unfolding nb len [symmetric] by (rule take_drop_stored [OF fit])
    have rows: "take (unat (row s + 1) * unat ?rb) (block w2 (pixels (rgb s)))
        = concat (map (scanline dec) [0..<unat (row s + 1)])" if u: "unwrapped dec"
    proof -
      from p have "unat (output_height (cinfo s)) = unat (frame_height dec)"
        by (simp add: within_row_def row_buffer_def measured_def unat_ucast_16)
      with lt have "unat (row s) \<le> unat (frame_height dec) - 1"
        by (simp add: word_less_nat_alt)
      then have "unat (row s) * unat ?rb \<le> (unat (frame_height dec) - 1) * unat ?rb"
        by (rule mult_le_mono1)
      moreover from u have "(unat (frame_height dec) - 1) * unat ?rb < 2 ^ LENGTH(32)"
        by (simp add: unwrapped_def rb)
      ultimately have "unat (row s) * unat ?rb < 2 ^ LENGTH(32)"
        by (rule le_less_trans)
      then have off: "?off = unat (row s) * unat ?rb"
        by (rule unat_mult_lem [THEN iffD1])
      from p u have old: "take ?off ?b = concat (map (scanline dec) [0..<unat (row s)])"
        by (simp add: fetched_def stored_def off)
      have "unat (row s + 1) * unat ?rb = ?off + length ?line"
        by (simp add: inc off rb)
      then have "take (unat (row s + 1) * unat ?rb) (block w2 (pixels (rgb s)))
          = take ?off ?b @ ?line"
        unfolding nb by (simp only: take_stored [OF fit])
      with old show ?thesis
        by (simp add: inc)
    qed
    from p have "apart s"
      by (simp add: fetched_def stored_def)
    with last rows have "stored dec s'"
      by (simp add: s' stored_def apart_def rgb_out_def)
    with Next show ?thesis
      by simp
  next
    case (Goto_cleanup s')
    then show ?thesis
      by (auto simp: copy_row_def Let_def split: option.splits)
  qed simp_all
qed

lemma scan_loop_stored:
  "triple (\<lambda>s. (unstarted w1 s \<and> row_buffer dec s \<and> pixel_buffer dec s) \<and> apart s)
     (scan_loop dec) (\<lambda>s. all_rows dec w1 s \<and> stored dec s) G anything False"
proof (rule tripleI)
  fix s assume p: "(unstarted w1 s \<and> row_buffer dec s \<and> pixel_buffer dec s) \<and> apart s"
  let ?I = "\<lambda>s. between_rows dec w1 s \<and> stored dec s"
  from p have "between_rows dec w1 (s\<lparr>row := 0\<rparr>)"
    by (simp add: between_rows_def unstarted_def scanned_def new_calls_def row_buffer_def
        pixel_buffer_def measured_def)
  moreover from p have "stored dec (s\<lparr>row := 0\<rparr>)"
    by (simp add: stored_def apart_def rgb_out_def)
  ultimately have i: "?I (s\<lparr>row := 0\<rparr>)"
    by simp
  have 1: "triple (\<lambda>s. ?I s \<and> output_scanline (cinfo s) < output_height (cinfo s))
      (jpeg_read_scanlines dec) (\<lambda>s. within_row dec w1 s \<and> fetched dec s) G anything False"
    by (rule triple_weaken
        [OF _ triple_strengthen [OF jpeg_read_scanlines_within_row jpeg_read_scanlines_fetched]])
      simp
  have 2: "triple (\<lambda>s. within_row dec w1 s \<and> fetched dec s) copy_row ?I G anything False"
    by (rule triple_strengthen [OF copy_row_between_rows copy_row_stored])
  have "triple (\<lambda>s. ?I s \<and> output_scanline (cinfo s) < output_height (cinfo s))
      (run [jpeg_read_scanlines dec, copy_row]) ?I G anything False"
    by (rule triple_run_Cons [OF 1], rule triple_run_Cons [OF 2], rule triple_run_Nil)
  from read_rows_post_guard [where I = ?I, OF this i]
  have "post (\<lambda>s. ?I s \<and> \<not> output_scanline (cinfo s) < output_height (cinfo s))
      G anything False (scan_loop dec s)"
    by (simp add: scan_loop_def)
  moreover have "all_rows dec w1 t \<and> stored dec t"
    if "?I t \<and> \<not> output_scanline (cinfo t) < output_height (cinfo t)" for t
  proof -
    from that have "output_scanline (cinfo t) = output_height (cinfo t)"
      by (auto simp: between_rows_def)
    with that show ?thesis
      by (simp add: all_rows_def between_rows_def scanned_def row_buffer_def measured_def
          unat_ucast_16)
  qed
  ultimately show "post (\<lambda>s. all_rows dec w1 s \<and> stored dec s) G anything False (scan_loop dec s)"
    by (cases "scan_loop dec s") auto
qed

lemma stored_steps:
  "triple (\<lambda>s. all_rows dec w1 s \<and> stored dec s) (convert_to_yuv lib) (stored dec) (stored dec)
     (\<lambda>s. True) True"
  "triple (\<lambda>s. all_rows dec w1 s \<and> stored dec s) (jpeg_finish_decompress dec) (stored dec) G
     (\<lambda>s. True) True"
  "triple (\<lambda>s. all_rows dec w1 s \<and> stored dec s) set_ret (stored dec) G (\<lambda>s. True) True"
  by (auto simp: triple_def stored_def apart_def rgb_out_def rd_step_defs Let_def
      split: option.splits)

lemma avifJPEGRead_body_stored:
  "triple (\<lambda>s. unstarted w1 s \<and> True) (avifJPEGRead_body lib dec fmt d)
     (\<lambda>s. all_rows dec w1 s \<and> stored dec s) (\<lambda>s. all_rows dec w1 s \<and> stored dec s)
     anything False"
  unfolding avifJPEGRead_body_def
  apply (rule triple_run_Cons, rule triple_strengthen [OF unstarted_steps(1) rgb_out_steps(1)])
  apply (rule triple_run_Cons, rule triple_strengthen [OF unstarted_steps(2) rgb_out_steps(2)])
  apply (rule triple_run_Cons, rule triple_strengthen [OF unstarted_steps(3) rgb_out_steps(3)])
  apply (rule triple_run_Cons, rule triple_strengthen [OF unstarted_steps(4) rgb_out_steps(4)])
  apply (rule triple_run_Cons, rule triple_strengthen [OF unstarted_steps(5) rgb_out_steps(5)])
  apply (rule triple_run_Cons, rule triple_strengthen [OF unstarted_steps(6) rgb_out_steps(6)])
  apply (rule triple_run_Cons, rule triple_strengthen [OF alloc_sarray_row_buffer rgb_out_steps(7)])
  apply (rule triple_run_Cons, rule triple_strengthen [OF extract_icc_row_buffer rgb_out_steps(8)])
  apply (rule triple_run_Cons, rule triple_strengthen [OF set_image_fields_sized rgb_out_steps(9)])
  apply (rule triple_run_Cons, rule triple_strengthen [OF allocate_rgb_pixel_buffer allocate_rgb_apart])
  apply (rule triple_run_Cons, rule scan_loop_stored)
  apply (rule triple_run_Cons, rule triple_conj [OF all_rows_steps(1) stored_steps(1)])
  apply (rule triple_run_Cons, rule triple_strengthen [OF all_rows_steps(2) stored_steps(2)])
  apply (rule triple_run_Cons, rule triple_strengthen [OF all_rows_steps(3) stored_steps(3)])
  apply (rule triple_run_Nil)
  done

text \<open>
  When every offset fits, the completed pixel buffer is the scanlines one after the
  other: row \<open>j\<close> of the buffer is scanline \<open>j\<close>.
\<close>

lemma stored_all_rows:
  assumes "all_rows dec w1 s" and "stored dec s" and "unwrapped dec"
  shows "\<exists>a. pixels (rgb s) = Some a \<and>
             heap (world s) a = Some (concat (map (scanline dec) [0..<unat (frame_height dec)]))"
proof -
  from assms(1) have lb: "live_block (world s) (pixels (rgb s))
      (unat (frame_width dec) * 3 * unat (frame_height dec))"
    and rb: "unat (rowBytes (rgb s)) = unat (frame_width dec) * 3"
    and r: "unat (row s) = unat (frame_height dec)"
    by (simp_all add: all_rows_def pixel_buffer_def row_buffer_def measured_def unat_stride
        unat_ucast_16)
  from assms(2,3) have "take (unat (row s) * unat (rowBytes (rgb s))) (block (world s) (pixels (rgb s)))
      = concat (map (scanline dec) [0..<unat (row s)])"
    by (simp add: stored_def)
  with live_block_length [OF lb] have "block (world s) (pixels (rgb s))
      = concat (map (scanline dec) [0..<unat (frame_height dec)])"
    by (simp add: rb r mult.commute)
  with live_block_heap [OF lb] show ?thesis
    by auto
qed

text \<open>
  How the body can end: at \<^verbatim>\<open>cleanup\<close> through the \<^verbatim>\<open>goto\<close> only when the conversion
  refused the buffer, through the \<^verbatim>\<open>longjmp\<close> only when the codec reports a fatal error
  in some call.
\<close>

definition refused :: "avif_library \<Rightarrow> rd \<Rightarrow> bool" where
  "refused lib s =
     (pixels (rgb s) = None \<or> (\<exists>px. avifImageRGBToYUV lib (avif s) (rgb s) px = None))"

definition fatal :: "decoder \<Rightarrow> rd \<Rightarrow> bool" where
  "fatal dec s = (\<exists>c. raises dec c)"

lemma ends_steps:
  "triple (\<lambda>s. True) (jpeg_create_decompress dec) (\<lambda>s. True) (refused lib) (fatal dec) True"
  "triple (\<lambda>s. True) (setup_read_icc_profile dec) (\<lambda>s. True) (refused lib) (fatal dec) True"
  "triple (\<lambda>s. True) (jpeg_stdio_src dec) (\<lambda>s. True) (refused lib) (fatal dec) True"
  "triple (\<lambda>s. True) (jpeg_read_header dec) (\<lambda>s. True) (refused lib) (fatal dec) True"
  "triple (\<lambda>s. True) set_out_color_space (\<lambda>s. True) (refused lib) (fatal dec) True"
  "triple (\<lambda>s. True) (jpeg_start_decompress dec) (\<lambda>s. True) (refused lib) (fatal dec) True"
  "triple (\<lambda>s. True) (alloc_sarray dec) (\<lambda>s. True) (refused lib) (fatal dec) True"
  "triple (\<lambda>s. True) (extract_icc dec) (\<lambda>s. True) (refused lib) (fatal dec) True"
  "triple (\<lambda>s. True) (set_image_fields fmt d) (\<lambda>s. True) (refused lib) (fatal dec) True"
  "triple (\<lambda>s. True) allocate_rgb (\<lambda>s. True) (refused lib) (fatal dec) True"
  "triple (\<lambda>s. True) (jpeg_read_scanlines dec) (\<lambda>s. True) (refused lib) (fatal dec) True"
  "triple (\<lambda>s. True) copy_row (\<lambda>s. True) (refused lib) (fatal dec) True"
  "triple (\<lambda>s. True) (convert_to_yuv lib) (\<lambda>s. True) (refused lib) (fatal dec) True"
  "triple (\<lambda>s. True) (jpeg_finish_decompress dec) (\<lambda>s. True) (refused lib) (fatal dec) True"
  "triple (\<lambda>s. True) set_ret (\<lambda>s. True) (refused lib) (fatal dec) True"
  by (auto simp: triple_def refused_def fatal_def rd_step_defs read_icc_profile_def
      allocate_rgb_def avifRGBImageAllocatePixels_def Let_def
      split: prod.splits option.splits)

lemma avifJPEGRead_body_ends:
  "triple (\<lambda>s. True) (avifJPEGRead_body lib dec fmt d) (\<lambda>s. True) (refused lib) (fatal dec) True"
  unfolding avifJPEGRead_body_def
  apply (rule triple_run_Cons, rule ends_steps)+
  apply (rule triple_run_Cons, rule scan_loop_triple [OF ends_steps(11) ends_steps(12)], simp)
  apply (rule triple_run_Cons, rule ends_steps)+
  apply (rule triple_run_Nil)
  done

lemma scanline_nth: "k < unat (frame_width dec) * 3 \<Longrightarrow> scanline dec j ! k = samples dec JCS_RGB j k"
  by (simp add: scanline_def)

lemma nth_take_drop: "take n (drop k xs) = ys \<Longrightarrow> 0 < n \<Longrightarrow> k < length xs \<Longrightarrow> xs ! k = ys ! 0"
  by auto

text \<open>
  C10, for a pixel buffer whose last row starts below \<open>2 ^ 32\<close> bytes. In every run of the
  body, for every behaviour of the codec and every frame size, no access leaves its block:
  every \<^verbatim>\<open>memcpy\<close> of the loop stays inside the sample array's row and inside the pixel
  buffer. When the loop has run to its end (the body falls through or the conversion
  fails), the number of bytes copied per row, \<^verbatim>\<open>rgb.rowBytes\<close>, is the row stride computed
  on line 72, which is \<^verbatim>\<open>output_width * output_components\<close> with 3 components; the sample
  array's row has that many bytes and the pixel buffer has \<^verbatim>\<open>rowBytes\<close> times
  \<^verbatim>\<open>output_height\<close> bytes; the scanlines 0 to \<^verbatim>\<open>output_height - 1\<close> were requested once
  each in that order and \<^verbatim>\<open>row\<close> has counted \<^verbatim>\<open>output_height\<close> iterations. When moreover
  \<^verbatim>\<open>(output_height - 1) * rowBytes\<close> is below \<open>2 ^ 32\<close>, iteration \<open>j\<close> has copied scanline \<open>j\<close>
  into row \<open>j\<close> of the pixel buffer, for the rows 0 to \<^verbatim>\<open>output_height - 1\<close>: the buffer
  holds the scanlines one after the other. This covers frames of width 1 and height 1.
\<close>

theorem avifJPEGRead_scanline_loop_rows:
  "avifJPEGRead_body lib dec requestedFormat requestedDepth (rd_entry name img w1) \<noteq> Fault \<and>
   (\<forall>s. avifJPEGRead_body lib dec requestedFormat requestedDepth (rd_entry name img w1) = Next s \<or>
        avifJPEGRead_body lib dec requestedFormat requestedDepth (rd_entry name img w1)
          = Goto_cleanup s \<longrightarrow>
        rowBytes (rgb s) = row_stride s \<and>
        unat (row_stride s) = unat (output_width (cinfo s)) * nat (output_components (cinfo s)) \<and>
        output_components (cinfo s) = 3 \<and>
        output_width (cinfo s) = ucast (frame_width dec) \<and>
        output_height (cinfo s) = ucast (frame_height dec) \<and>
        live_block (world s) (buffer s) (unat (row_stride s)) \<and>
        live_block (world s) (pixels (rgb s))
          (unat (rowBytes (rgb s)) * unat (output_height (cinfo s))) \<and>
        row s = output_height (cinfo s) \<and>
        scan_indices (drop (length (calls w1)) (calls (world s)))
          = [0..<unat (output_height (cinfo s))] \<and>
        ((unat (output_height (cinfo s)) - 1) * unat (rowBytes (rgb s)) < 2 ^ 32 \<longrightarrow>
           (\<exists>a. pixels (rgb s) = Some a \<and>
                heap (world s) a
                  = Some (concat (map (scanline dec) [0..<unat (output_height (cinfo s))])))))"
proof -
  let ?b = "avifJPEGRead_body lib dec requestedFormat requestedDepth (rd_entry name img w1)"
  have "unstarted w1 (rd_entry name img w1) \<and> True"
    by (simp add: unstarted_rd_entry)
  with avifJPEGRead_body_stored
  have p: "post (\<lambda>s. all_rows dec w1 s \<and> stored dec s) (\<lambda>s. all_rows dec w1 s \<and> stored dec s)
      anything False ?b"
    by (rule tripleD)
  have k: "rowBytes (rgb s) = row_stride s \<and>
        unat (row_stride s) = unat (output_width (cinfo s)) * nat (output_components (cinfo s)) \<and>
        output_components (cinfo s) = 3 \<and>
        output_width (cinfo s) = ucast (frame_width dec) \<and>
        output_height (cinfo s) = ucast (frame_height dec) \<and>
        live_block (world s) (buffer s) (unat (row_stride s)) \<and>
        live_block (world s) (pixels (rgb s))
          (unat (rowBytes (rgb s)) * unat (output_height (cinfo s))) \<and>
        row s = output_height (cinfo s) \<and>
        scan_indices (drop (length (calls w1)) (calls (world s)))
          = [0..<unat (output_height (cinfo s))]" if "all_rows dec w1 s" for s
    using that
    by (simp add: all_rows_def row_buffer_def pixel_buffer_def measured_def new_calls_def
        unat_stride unat_ucast_16)
  have c: "\<exists>a. pixels (rgb s) = Some a \<and>
        heap (world s) a = Some (concat (map (scanline dec) [0..<unat (output_height (cinfo s))]))"
    if a: "all_rows dec w1 s" and st: "stored dec s"
      and u: "(unat (output_height (cinfo s)) - 1) * unat (rowBytes (rgb s)) < 2 ^ 32" for s
  proof -
    from a have h: "unat (output_height (cinfo s)) = unat (frame_height dec)"
      and rb: "unat (rowBytes (rgb s)) = unat (frame_width dec) * 3"
      by (simp_all add: all_rows_def row_buffer_def pixel_buffer_def measured_def unat_stride
          unat_ucast_16)
    from u have "unwrapped dec"
      by (simp add: unwrapped_def h rb)
    from stored_all_rows [OF a st this] show ?thesis
      by (simp add: h)
  qed
  show ?thesis
  proof (rule conjI, goal_cases)
    case 1
    from p show ?case
      by (cases ?b) auto
  next
    case 2
    show ?case
    proof (intro allI impI)
      fix s assume "?b = Next s \<or> ?b = Goto_cleanup s"
      with p have a: "all_rows dec w1 s" and st: "stored dec s"
        by auto
      from k [OF a] c [OF a st]
      show "rowBytes (rgb s) = row_stride s \<and>
        unat (row_stride s) = unat (output_width (cinfo s)) * nat (output_components (cinfo s)) \<and>
        output_components (cinfo s) = 3 \<and>
        output_width (cinfo s) = ucast (frame_width dec) \<and>
        output_height (cinfo s) = ucast (frame_height dec) \<and>
        live_block (world s) (buffer s) (unat (row_stride s)) \<and>
        live_block (world s) (pixels (rgb s))
          (unat (rowBytes (rgb s)) * unat (output_height (cinfo s))) \<and>
        row s = output_height (cinfo s) \<and>
        scan_indices (drop (length (calls w1)) (calls (world s)))
          = [0..<unat (output_height (cinfo s))] \<and>
        ((unat (output_height (cinfo s)) - 1) * unat (rowBytes (rgb s)) < 2 ^ 32 \<longrightarrow>
           (\<exists>a. pixels (rgb s) = Some a \<and>
                heap (world s) a
                  = Some (concat (map (scanline dec) [0..<unat (output_height (cinfo s))]))))"
        by blast
    qed
  qed
qed

theorem avifJPEGRead_scanline_loop_rows_witness:
  "\<exists>s a. avifJPEGRead_body ex_library
          (stream_decoder [Frame_header 2 2, Scan_data [1, 2, 3, 4, 5, 6],
             Scan_data [7, 8, 9, 10, 11, 12], End_of_image])
          AVIF_PIXEL_FORMAT_YUV420 0 (rd_entry ''in.jpg'' ex_image ex_world) = Next s \<and>
        rowBytes (rgb s) = row_stride s \<and> unat (row_stride s) = 6 \<and> row s = 2 \<and>
        scan_indices (drop (length (calls ex_world)) (calls (world s))) = [0, 1] \<and>
        pixels (rgb s) = Some a \<and>
        heap (world s) a = Some [1, 2, 3, 4, 5, 6, 7, 8, 9, 10, 11, 12]"
proof -
  let ?dec = "stream_decoder [Frame_header 2 2, Scan_data [1, 2, 3, 4, 5, 6],
      Scan_data [7, 8, 9, 10, 11, 12], End_of_image]"
  let ?b = "avifJPEGRead_body ex_library ?dec AVIF_PIXEL_FORMAT_YUV420 0
      (rd_entry ''in.jpg'' ex_image ex_world)"
  have "case ?b of Next s \<Rightarrow> True | Goto_cleanup s \<Rightarrow> False | Longjmp s \<Rightarrow> False | Fault \<Rightarrow> False"
    by code_simp
  then obtain s where s: "?b = Next s"
    by (cases ?b) auto
  have f: "frame_width ?dec = 2" "frame_height ?dec = 2"
    by code_simp+
  have g: "concat (map (scanline ?dec) [0..<2]) = [1, 2, 3, 4, 5, 6, 7, 8, 9, 10, 11, 12]"
    by code_simp
  from avifJPEGRead_scanline_loop_rows
    [of ex_library ?dec AVIF_PIXEL_FORMAT_YUV420 0 "''in.jpg''" ex_image ex_world] s
  have t: "rowBytes (rgb s) = row_stride s"
    "unat (row_stride s) = unat (output_width (cinfo s)) * nat (output_components (cinfo s))"
    "output_components (cinfo s) = 3"
    "output_width (cinfo s) = ucast (frame_width ?dec)"
    "output_height (cinfo s) = ucast (frame_height ?dec)"
    "row s = output_height (cinfo s)"
    "scan_indices (drop (length (calls ex_world)) (calls (world s)))
       = [0..<unat (output_height (cinfo s))]"
    "(unat (output_height (cinfo s)) - 1) * unat (rowBytes (rgb s)) < 2 ^ 32 \<longrightarrow>
       (\<exists>a. pixels (rgb s) = Some a \<and>
            heap (world s) a
              = Some (concat (map (scanline ?dec) [0..<unat (output_height (cinfo s))])))"
    by blast+
  from t(5) f have hw: "output_height (cinfo s) = 2"
    by simp
  then have h: "unat (output_height (cinfo s)) = 2"
    by simp
  from t(1-4) f have w: "unat (rowBytes (rgb s)) = 6"
    by simp
  from t(8) h w g obtain a where "pixels (rgb s) = Some a"
    "heap (world s) a = Some [1, 2, 3, 4, 5, 6, 7, 8, 9, 10, 11, 12]"
    by auto
  with s t(1,6,7) hw h w show ?thesis
    by (auto simp: upt_rec)
qed

text \<open>
  Without the bound the rows are not stored at the row indices 0 to
  \<^verbatim>\<open>output_height - 1\<close>. Line 96 multiplies the \<^verbatim>\<open>int\<close> \<^verbatim>\<open>row\<close> by the \<^verbatim>\<open>uint32_t\<close>
  \<^verbatim>\<open>rgb.rowBytes\<close>, a product of 32 bits. For a frame 65500 pixels wide a row has 196500
  bytes, and the offset of row 21858 is 4295097000, which is 129704 modulo \<open>2 ^ 32\<close>: of a
  frame of 21859 lines the last scanline is copied to byte 129704, inside row 0, where
  scanline 0 had been stored. The frame below has the value 1 in all of scanline 21858 and 0
  elsewhere.
\<close>

definition wide_frame :: decoder where
  "wide_frame =
     \<lparr>raises = (\<lambda>c. False), frame_width = 65500, frame_height = 21859,
      frame_color_space = JCS_YCbCr, profile = None,
      samples = (\<lambda>cs j k. if j = 21858 then 1 else 0)\<rparr>"

lemma wide_frame_width: "frame_width wide_frame = 65500"
  and wide_frame_height: "frame_height wide_frame = 21859"
  by (simp_all add: wide_frame_def)

lemma wide_frame_accepted: "all_rows wide_frame w s \<Longrightarrow> \<not> refused ex_library s"
  by (auto simp: refused_def ex_library_def all_rows_def pixel_buffer_def live_block_def
        split: option.splits)

lemma wide_frame_sound: "\<not> fatal wide_frame s"
  by (simp add: fatal_def wide_frame_def)

lemma wide_frame_Next:
  "\<exists>s. avifJPEGRead_body ex_library wide_frame fmt d (rd_entry name img w1) = Next s \<and>
       all_rows wide_frame w1 s \<and> stored wide_frame s"
proof -
  let ?b = "avifJPEGRead_body ex_library wide_frame fmt d (rd_entry name img w1)"
  have "unstarted w1 (rd_entry name img w1) \<and> True"
    by (simp add: unstarted_rd_entry)
  with avifJPEGRead_body_stored
  have p: "post (\<lambda>s. all_rows wide_frame w1 s \<and> stored wide_frame s)
      (\<lambda>s. all_rows wide_frame w1 s \<and> stored wide_frame s) anything False ?b"
    by (rule tripleD)
  have e: "post (\<lambda>s. True) (refused ex_library) (fatal wide_frame) True ?b"
    by (rule tripleD [OF avifJPEGRead_body_ends]) simp
  show ?thesis
  proof (cases ?b)
    case (Next s)
    with p show ?thesis by simp
  next
    case (Goto_cleanup s)
    with p e wide_frame_accepted [of w1 s] show ?thesis by simp
  next
    case (Longjmp s)
    with e wide_frame_sound [of s] show ?thesis by simp
  next
    case Fault
    with p show ?thesis by simp
  qed
qed

lemma wide_frame_one: "scanline wide_frame 21858 ! 0 = 1"
  by (simp add: scanline_nth wide_frame_width) (simp add: wide_frame_def)

lemma wide_frame_zero: "scanline wide_frame 0 ! 129704 = 0"
  by (simp add: scanline_nth wide_frame_width) (simp add: wide_frame_def)

lemma wide_frame_sizes:
  assumes "all_rows wide_frame w1 s"
  shows "output_height (cinfo s) = 21859" and "rowBytes (rgb s) = 196500" and "row s = 21859"
    and "live_block (world s) (pixels (rgb s)) 4295293500"
  using assms
  by (simp_all add: all_rows_def row_buffer_def pixel_buffer_def measured_def wide_frame_width wide_frame_height)

lemma wide_frame_last:
  assumes "stored wide_frame s" and "row s = 21859" and "rowBytes (rgb s) = 196500"
  shows "take 196500 (drop 129704 (block (world s) (pixels (rgb s)))) = scanline wide_frame 21858"
  using assms by (simp add: stored_def)

lemma wide_frame_row_0:
  "concat (map (scanline wide_frame) [0..<21859]) ! 129704 = scanline wide_frame 0 ! 129704"
proof -
  have "[0..<21859] = 0 # [Suc 0..<21859]"
    by (rule upt_conv_Cons) simp
  then show ?thesis
    by (simp add: nth_append wide_frame_width)
qed

theorem avifJPEGRead_row_offset_wraps:
  "\<exists>s a px.
     avifJPEGRead_body ex_library wide_frame AVIF_PIXEL_FORMAT_YUV444 8
       (rd_entry ''in.jpg'' ex_image ex_world) = Next s \<and>
     output_height (cinfo s) = 21859 \<and> rowBytes (rgb s) = 196500 \<and> row s = 21859 \<and>
     pixels (rgb s) = Some a \<and> heap (world s) a = Some px \<and> length px = 4295293500 \<and>
     take 196500 (drop 129704 px) = scanline wide_frame 21858 \<and>
     px ! 129704 = 1 \<and> scanline wide_frame 0 ! 129704 = 0 \<and>
     px \<noteq> concat (map (scanline wide_frame) [0..<21859])"
proof -
  from wide_frame_Next obtain s where
    s: "avifJPEGRead_body ex_library wide_frame AVIF_PIXEL_FORMAT_YUV444 8
          (rd_entry ''in.jpg'' ex_image ex_world) = Next s"
    and a: "all_rows wide_frame ex_world s" and st: "stored wide_frame s"
    by blast
  note z = wide_frame_sizes [OF a]
  let ?px = "block (world s) (pixels (rgb s))"
  from live_block_heap [OF z(4)] obtain a where px: "pixels (rgb s) = Some a"
    "heap (world s) a = Some ?px"
    by blast
  from live_block_length [OF z(4)] have len: "length ?px = 4295293500" .
  note last = wide_frame_last [OF st z(3) z(2)]
  have "?px ! 129704 = scanline wide_frame 21858 ! 0"
    by (rule nth_take_drop [OF last]) (simp_all add: len)
  then have at: "?px ! 129704 = 1"
    by (simp only: wide_frame_one)
  have ne: "?px \<noteq> concat (map (scanline wide_frame) [0..<21859])"
    by (metis at wide_frame_row_0 wide_frame_zero zero_neq_one)
  show ?thesis
    by (intro exI [of _ s] exI [of _ a] exI [of _ ?px] conjI s z(1) z(2) z(3) px len last at
        wide_frame_zero ne)
qed

section \<open>What the encoder writes\<close>

lemmas wr_step_defs =
  jpeg_create_compress_def request_rgb_def convert_to_rgb_def alpha_fallback_def
  open_output_def configure_def embed_icc_def jpeg_write_scanlines_def jpeg_finish_compress_def







text \<open>Up to line 177 the function opens nothing and writes nothing.\<close>

definition is_fopen :: "call \<Rightarrow> bool" where
  "is_fopen c = (case c of Fopen name m \<Rightarrow> True | _ \<Rightarrow> False)"

definition untouched :: "world \<Rightarrow> wr \<Rightarrow> bool" where
  "untouched w0 s =
     (wr.fp s = None \<and> \<not> wr.ret s \<and> files (wr.world s) = files w0 \<and>
      handles (wr.world s) = handles w0 \<and>
      length (calls w0) \<le> length (calls (wr.world s)) \<and>
      list_all (\<lambda>c. \<not> is_fopen c) (drop (length (calls w0)) (calls (wr.world s))))"


lemma untouched_rgb [simp]:
  "untouched w0 (s\<lparr>wr.rgb := r\<rparr>) = untouched w0 s"
  "untouched w0 (s\<lparr>rgbPremultiplied := r\<rparr>) = untouched w0 s"
  "untouched w0 (s\<lparr>wr.cinfo := c\<rparr>) = untouched w0 s"
  by (simp_all add: untouched_def)








lemma wr_cleanup_world:
  "\<exists>w'. wr_cleanup s = (wr.ret s, w') \<and> files w' = files (wr.world s) \<and>
     can_open w' = can_open (wr.world s) \<and>
     handles w' = (case wr.fp s of None \<Rightarrow> handles (wr.world s)
                   | Some name \<Rightarrow> remove1 name (handles (wr.world s))) \<and>
     calls w' = calls (wr.world s) @ (case wr.fp s of None \<Rightarrow> [] | Some name \<Rightarrow> [Fclose name])
                  @ [Jpeg_destroy_compress]"
  by (auto simp: wr_cleanup_def jpeg_destroy_compress_def avifRGBImageFreePixels_def
      fclose_def avifFree_def Let_def split: option.splits)

text \<open>From line 179 on: the stream in the destination file grows segment by segment.\<close>

definition icc_segments :: "avifImage \<Rightarrow> segment list" where
  "icc_segments img =
     (if icc img \<noteq> []
      then [ICC_marker (take (unat (of_nat (length (icc img)) :: uint32)) (icc img))] else [])"

definition pending :: "wr \<Rightarrow> bool" where
  "pending s = (\<not> wr.ret s)"

definition destination :: "string \<Rightarrow> segment list \<Rightarrow> wr \<Rightarrow> bool" where
  "destination name segs s =
     (\<not> wr.ret s \<and> wr.fp s = Some name \<and> contents (wr.world s) name = segs)"

definition streaming :: "string \<Rightarrow> segment list \<Rightarrow> wr \<Rightarrow> bool" where
  "streaming name segs s =
     (\<not> wr.ret s \<and> dest (wr.cinfo s) = Some name \<and> contents (wr.world s) name = segs)"

definition pumping :: "string \<Rightarrow> segment list \<Rightarrow> wr \<Rightarrow> bool" where
  "pumping name segs s =
     (\<not> wr.ret s \<and> dest (wr.cinfo s) = Some name \<and>
      (\<exists>rows. contents (wr.world s) name = segs @ map Scan_data rows))"

definition complete :: "string \<Rightarrow> segment list \<Rightarrow> wr \<Rightarrow> bool" where
  "complete name segs s =
     (wr.ret s \<and>
      (\<exists>rows. contents (wr.world s) name = segs @ map Scan_data rows @ [End_of_image]))"

lemma contents_note_call [simp]: "contents (note_call c w) name = contents w name"
  by (simp add: contents_def)

lemma contents_emit [simp]: "contents (emit (Some name) seg w) name = contents w name @ [seg]"
  by (simp add: contents_def emit_def)

lemma pending_steps:
  "triple pending jpeg_create_compress pending pending L F"
  "triple pending (request_rgb img cu) pending pending L F"
  "triple pending (convert_to_rgb lib img) pending pending L F"
  "triple pending (alpha_fallback lib ext img) pending pending L True"
  by (auto simp: triple_def pending_def wr_step_defs Let_def split: option.splits prod.splits)

lemma conversion_steps_pending:
  "triple pending (run (conversion_steps lib ext img cu)) pending pending L True"
  unfolding conversion_steps_def
  apply (rule triple_run_Cons, rule pending_steps)+
  apply (rule triple_run_Nil)
  done

lemma open_output_destination:
  "triple pending (open_output name) (destination name []) pending L F"
  by (auto simp: triple_def pending_def destination_def open_output_def fopen_def Let_def
      contents_def note_call_def)

lemma configure_streaming:
  "triple (destination name []) (configure ext img q)
     (streaming name [Frame_header (avifImage.width img) (avifImage.height img)]) pending L F"
  by (auto simp: triple_def destination_def streaming_def configure_def Let_def)

lemma embed_icc_streaming:
  "triple (streaming name segs) (embed_icc img) (streaming name (segs @ icc_segments img))
     pending L F"
  by (auto simp: triple_def streaming_def embed_icc_def write_icc_profile_def icc_segments_def)

lemma jpeg_write_scanlines_pumping:
  "pumping name segs s \<Longrightarrow> post (pumping name segs) pending L True (jpeg_write_scanlines p s)"
proof -
  assume p: "pumping name segs s"
  then obtain rows where rows: "contents (wr.world s) name = segs @ map Scan_data rows"
    by (auto simp: pumping_def)
  show ?thesis
  proof (cases "peek (fst p) (snd p)
      (unat (image_width (wr.cinfo s)) * nat (input_components (wr.cinfo s))) (wr.world s)")
    case None
    then show ?thesis
      by (simp add: jpeg_write_scanlines_def Let_def)
  next
    case (Some bs)
    from rows have "contents (wr.world s) name @ [Scan_data bs]
        = segs @ map Scan_data (rows @ [bs])"
      by simp
    with p Some show ?thesis
      unfolding jpeg_write_scanlines_def Let_def pumping_def
      by (auto simp del: map_append)
  qed
qed

lemma pump_rows_pumping:
  "triple (streaming name segs) (pump_rows ext img) (pumping name segs) pending L True"
proof (rule tripleI)
  fix s assume "streaming name segs s"
  then have p: "pumping name segs s"
    by (auto simp: streaming_def pumping_def intro: exI [of _ "[]"])
  have "post (pumping name segs) pending L True (write_rows buf s)" for buf
    by (rule write_rows_post [where I = "pumping name segs"])
      (rule jpeg_write_scanlines_pumping, assumption, rule p)
  then show "post (pumping name segs) pending L True (pump_rows ext img s)"
    by (simp add: pump_rows_def)
qed

lemma jpeg_finish_compress_complete:
  "triple (pumping name segs) jpeg_finish_compress (complete name segs) pending L F"
  by (auto simp: triple_def pumping_def complete_def jpeg_finish_compress_def)

lemma output_steps_complete:
  "triple pending (run (output_steps ext name img q))
     (complete name (Frame_header (avifImage.width img) (avifImage.height img) # icc_segments img))
     pending L True"
  unfolding output_steps_def
  apply (rule triple_run_Cons, rule open_output_destination)
  apply (rule triple_run_Cons, rule configure_streaming)
  apply (rule triple_run_Cons, rule embed_icc_streaming)
  apply (rule triple_run_Cons, simp, rule pump_rows_pumping)
  apply (rule triple_run_Cons, rule jpeg_finish_compress_complete)
  apply (rule triple_run_Nil)
  done

lemma avifJPEGWrite_body_complete:
  "triple pending (avifJPEGWrite_body lib ext name img q cu)
     (complete name (Frame_header (avifImage.width img) (avifImage.height img) # icc_segments img))
     pending L True"
  unfolding avifJPEGWrite_body_def
  by (rule triple_run_append [OF conversion_steps_pending output_steps_complete])

lemma avifJPEGWrite_True:
  assumes "avifJPEGWrite lib ext name img q cu w0 = Some (True, w1)"
  shows "\<exists>rows. contents w1 name =
           Frame_header (avifImage.width img) (avifImage.height img) # icc_segments img
             @ map Scan_data rows @ [End_of_image]"
proof -
  let ?b = "avifJPEGWrite_body lib ext name img q cu (wr_entry w0)"
  let ?segs = "Frame_header (avifImage.width img) (avifImage.height img) # icc_segments img"
  have "pending (wr_entry w0)"
    by (simp add: pending_def wr_entry_def)
  with avifJPEGWrite_body_complete have p: "post (complete name ?segs) pending (\<lambda>s. True) True ?b"
    by (rule tripleD)
  have c: "wr_cleanup s = (True, w1) \<Longrightarrow> wr.ret s \<and> contents w1 name = contents (wr.world s) name"
    for s
    using wr_cleanup_world [of s] by (auto simp: contents_def)
  show ?thesis
  proof (cases ?b)
    case (Next s)
    with assms have "wr_cleanup s = (True, w1)"
      by (simp add: avifJPEGWrite_def)
    from c [OF this] p Next show ?thesis
      by (auto simp: complete_def)
  next
    case (Goto_cleanup s)
    with assms have "wr_cleanup s = (True, w1)"
      by (simp add: avifJPEGWrite_def)
    from c [OF this] p Goto_cleanup show ?thesis
      by (simp add: pending_def)
  next
    case (Longjmp s)
    with assms show ?thesis
      by (simp add: avifJPEGWrite_def)
  next
    case Fault
    with assms show ?thesis
      by (simp add: avifJPEGWrite_def)
  qed
qed

section \<open>Reading back what was written\<close>

text \<open>A decode that returns true has read the header without a fatal error.\<close>

lemma triple_any: "triple (\<lambda>s. True) c (\<lambda>s. True) (\<lambda>s. True) (\<lambda>s. True) True"
  by (simp add: triple_def post_def split: flow.splits)

lemma triple_fact: "triple (\<lambda>s. b) c (\<lambda>s. b) (\<lambda>s. True) (\<lambda>s. True) True"
  by (simp add: triple_def post_def split: flow.splits)

lemma jpeg_read_header_accepted:
  "triple (\<lambda>s. True) (jpeg_read_header dec) (\<lambda>s. \<not> raises dec Jpeg_read_header)
     (\<lambda>s. True) (\<lambda>s. True) True"
  by (simp add: triple_def jpeg_read_header_def codec_call_def my_error_exit_def Let_def)

lemma avifJPEGRead_body_accepted:
  "triple (\<lambda>s. True) (avifJPEGRead_body lib dec fmt d) (\<lambda>s. \<not> raises dec Jpeg_read_header)
     (\<lambda>s. True) (\<lambda>s. True) True"
  unfolding avifJPEGRead_body_def
  apply (rule triple_run_Cons, rule triple_any)
  apply (rule triple_run_Cons, rule triple_any)
  apply (rule triple_run_Cons, rule triple_any)
  apply (rule triple_run_Cons, rule jpeg_read_header_accepted)
  apply (rule triple_run_Cons, rule triple_fact)+
  apply (rule triple_run_Nil)
  done

lemma avifJPEGRead_True_header:
  assumes "avifJPEGRead lib codec name img fmt d w0 = Some (True, img', w')"
  shows "\<not> raises (codec (contents w0 name)) Jpeg_read_header"
proof -
  from assms have o: "can_open w0 name RB"
    by (auto simp: avifJPEGRead_def fopen_def Let_def split: if_splits)
  note r = assms [unfolded avifJPEGRead_run [OF o]]
  note p = rd_run_image [of codec w0 name fmt d img lib]
  have q: "post (\<lambda>s. \<not> raises (codec (contents w0 name)) Jpeg_read_header) (\<lambda>s. True)
      (\<lambda>s. True) True (rd_run lib codec name img fmt d w0)"
    unfolding rd_run_def by (rule tripleD [OF avifJPEGRead_body_accepted]) simp
  show ?thesis
  proof (cases "rd_run lib codec name img fmt d w0")
    case (Next s)
    with q show ?thesis by simp
  next
    case (Goto_cleanup s)
    with r have "ret s" by (simp add: rd_cleanup_def Let_def split: prod.splits)
    with p Goto_cleanup show ?thesis by (simp add: profiled_def)
  next
    case (Longjmp s)
    with r have "ret s" by (simp add: rd_cleanup_def Let_def split: prod.splits)
    with p Longjmp show ?thesis by (simp add: unfinished_def)
  next
    case Fault
    with r show ?thesis by simp
  qed
qed

text \<open>What \<open>stream_decoder\<close> finds in a stream of the shape \<^verbatim>\<open>avifJPEGWrite\<close> produces.\<close>

lemma icc_of_scans [simp]: "icc_of (map Scan_data rows @ [End_of_image]) = None"
  by (induction rows) simp_all

lemma icc_of_written:
  "icc_of (Frame_header w h # icc_segments img @ map Scan_data rows @ [End_of_image]) =
     (if icc img \<noteq> [] \<and> (of_nat (length (icc img)) :: uint32) \<noteq> 0
      then Some (take (unat (of_nat (length (icc img)) :: uint32)) (icc img)) else None)"
  by (auto simp: icc_segments_def unat_eq_0)

lemma ucast_ucast_16:
  fixes w :: uint32
  assumes "\<not> 65535 < w"
  shows "(ucast (ucast w :: 16 word) :: uint32) = w"
proof -
  from assms have "unat w < 2 ^ 16"
    by (simp add: word_less_nat_alt not_less)
  then have "take_bit 16 (unat w) = unat w"
    by (simp add: take_bit_nat_eq_self)
  then have "unat (ucast (ucast w :: 16 word) :: uint32) = unat w"
    by (simp add: unsigned_ucast_eq unsigned_take_bit_eq take_bit_nat_eq_self)
  then show ?thesis
    by (rule word_unat_eq_iff [THEN iffD2])
qed

lemma of_nat_length_32:
  "length bs < 2 ^ 32 \<Longrightarrow> unat (of_nat (length bs) :: uint32) = length bs"
  by (simp add: unat_of_nat take_bit_nat_eq_self)

lemma round_trip:
  assumes w: "avifJPEGWrite lib ext name img q cu w0 = Some (True, w1)"
      and r: "avifJPEGRead lib' stream_decoder name img0 fmt d w1 = Some (True, img', w2)"
  shows "avifImage.width img' = avifImage.width img \<and>
         avifImage.height img' = avifImage.height img \<and>
         icc img' =
           (if icc img \<noteq> [] \<and> (of_nat (length (icc img)) :: uint32) \<noteq> 0
            then take (unat (of_nat (length (icc img)) :: uint32)) (icc img) else icc img0)"
proof -
  from avifJPEGWrite_True [OF w] obtain rows where
    c: "contents w1 name =
          Frame_header (avifImage.width img) (avifImage.height img) # icc_segments img
            @ map Scan_data rows @ [End_of_image]"
    by blast
  let ?dec = "stream_decoder (contents w1 name)"
  from avifJPEGRead_True_header [OF r] c
  have b: "\<not> 65535 < avifImage.width img" "\<not> 65535 < avifImage.height img"
    by (simp_all add: stream_decoder_def)
  from avifJPEGRead_True [OF r]
  have f: "fields_set ?dec fmt d img'" and i: "icc img' = icc_read ?dec img0"
    by simp_all
  have fw: "frame_width ?dec = ucast (avifImage.width img)"
    and fh: "frame_height ?dec = ucast (avifImage.height img)"
    by (simp_all add: c stream_decoder_def)
  have pr: "profile ?dec =
      (if icc img \<noteq> [] \<and> (of_nat (length (icc img)) :: uint32) \<noteq> 0
       then Some (take (unat (of_nat (length (icc img)) :: uint32)) (icc img)) else None)"
    unfolding c stream_decoder_def by (simp only: decoder.simps icc_of_written)
  define bs where "bs = take (unat (of_nat (length (icc img)) :: uint32)) (icc img)"
  have "length bs < 2 ^ 32"
    unfolding bs_def
    using unsigned_less [of "of_nat (length (icc img)) :: uint32", where 'a = nat] by simp
  then have "take (unat (of_nat (length bs) :: uint32)) bs = bs"
    by (simp add: of_nat_length_32)
  then have "icc_read ?dec img0 =
      (if icc img \<noteq> [] \<and> (of_nat (length (icc img)) :: uint32) \<noteq> 0
       then take (unat (of_nat (length (icc img)) :: uint32)) (icc img) else icc img0)"
    unfolding icc_read_def pr bs_def by simp
  with f i fw fh b show ?thesis
    by (simp add: fields_set_def ucast_ucast_16)
qed

section \<open>Properties of avifJPEGWrite\<close>

text \<open>
  An RGBA buffer of two pixels with premultiplied colours, as \<^verbatim>\<open>avifJPEGWrite\<close> hands it
  to \<^verbatim>\<open>avifRGBAToRGB\<close>: the block at address 0 of the example world.
\<close>

definition ex_rgba :: "avifRGBImage \<times> world" where
  "ex_rgba =
     (let (r, w) = avifRGBImageAllocatePixels
                     ((avifRGBImageSetDefaults ex_image)\<lparr>avifRGBImage.depth := 8\<rparr>) ex_world
      in (r, fill 0 [100, 50, 25, 128, 10, 20, 30, 255] w))"

text \<open>
  C1 fails on the code. \<^verbatim>\<open>avifRGBAToRGB\<close> takes \<^verbatim>\<open>dstRow\<close> from \<^verbatim>\<open>src->pixels\<close> (line
  130), so the three colour bytes of every pixel are stored back into the source buffer
  and the destination buffer keeps what the allocator left in it. On the example the
  source block ends up holding the packed colours, the destination block (address 1) is
  still all 170, the filler of uninitialised memory in the example world, and the row
  \<^verbatim>\<open>avifJPEGWrite\<close> hands to the codec is that block, where premultiplying and dropping
  the alpha byte gives 100, 50, 25, 10, 20, 30.
\<close>

theorem avifRGBAToRGB_writes_source_buffer:
  "map_option (\<lambda>(r, w). (pixels r, rowBytes r, heap w 0, heap w 1))
      (avifRGBAToRGB (fst ex_rgba) (avifRGBImageSetDefaults ex_image) (snd ex_rgba))
     = Some (Some 1, 6, Some [100, 50, 25, 10, 20, 30, 30, 255],
             Some [170, 170, 170, 170, 170, 170]) \<and>
   map_option (\<lambda>(r, w). (r, contents w ''out.jpg''))
      (avifJPEGWrite ex_library False ''out.jpg'' ex_image 90 AVIF_CHROMA_UPSAMPLING_AUTOMATIC ex_world)
     = Some (True, [Frame_header 2 1, Scan_data [170, 170, 170, 170, 170, 170], End_of_image]) \<and>
   drop_alpha (premultiply_bytes [200, 100, 50, 128, 10, 20, 30, 255]) = [100, 50, 25, 10, 20, 30]"
  by code_simp

text \<open>
  C2 fails on the code. The format of the buffer is chosen on line 155, outside the
  conditional compilation: for an image whose alpha is premultiplied the function asks
  the conversion for an RGB buffer also when \<^verbatim>\<open>JCS_ALPHA_EXTENSIONS\<close> is defined, and then
  starts the codec with the colour space \<^verbatim>\<open>JCS_EXT_RGBX\<close>.
\<close>

theorem avifJPEGWrite_requests_rgb_with_alpha_extensions:
  "map_option (\<lambda>(r, w). (r, calls w))
      (avifJPEGWrite ex_library True ''out.jpg'' ex_premultiplied 90 AVIF_CHROMA_UPSAMPLING_AUTOMATIC ex_world)
     = Some (True,
         [Jpeg_create_compress, Avif_image_yuv_to_rgb AVIF_RGB_FORMAT_RGB, Fopen ''out.jpg'' WB,
          Jpeg_stdio_dest, Jpeg_start_compress JCS_EXT_RGBX 3, Jpeg_write_scanlines 0,
          Jpeg_finish_compress, Fclose ''out.jpg'', Jpeg_destroy_compress])"
  by code_simp




text \<open>
  C5, for a profile of fewer than \<open>2 ^ 32\<close> bytes: when \<^verbatim>\<open>avifJPEGWrite\<close> has written an
  image to a file and \<^verbatim>\<open>avifJPEGRead\<close> then decodes that file, both returning true, the
  decoded image has the width and the height of the source image, and when the source
  image carried a non-empty ICC profile the decoded image's profile is that profile, byte
  for byte. The codec between the two is \<open>stream_decoder\<close>.
\<close>

theorem avifJPEGWrite_avifJPEGRead_round_trip:
  assumes "avifJPEGWrite lib ext name img jpegQuality cu w0 = Some (True, w1)"
    and "avifJPEGRead lib' stream_decoder name img0 requestedFormat requestedDepth w1
           = Some (True, img', w2)"
    and "length (icc img) < 2 ^ 32"
  shows "avifImage.width img' = avifImage.width img \<and>
         avifImage.height img' = avifImage.height img \<and>
         (icc img \<noteq> [] \<longrightarrow> icc img' = icc img)"
proof -
  from assms(3) have n: "unat (of_nat (length (icc img)) :: uint32) = length (icc img)"
    by (rule of_nat_length_32)
  then have "icc img \<noteq> [] \<Longrightarrow> (of_nat (length (icc img)) :: uint32) \<noteq> 0"
    by auto
  with round_trip [OF assms(1,2)] n show ?thesis
    by simp
qed

theorem avifJPEGWrite_avifJPEGRead_round_trip_witness:
  "\<exists>w1 img' w2.
     avifJPEGWrite ex_library False ''out.jpg'' (ex_premultiplied\<lparr>icc := [1, 2, 3]\<rparr>) 90
       AVIF_CHROMA_UPSAMPLING_AUTOMATIC ex_world = Some (True, w1) \<and>
     avifJPEGRead ex_library stream_decoder ''out.jpg'' ex_image AVIF_PIXEL_FORMAT_YUV444 8 w1
       = Some (True, img', w2) \<and>
     avifImage.width img' = 2 \<and> avifImage.height img' = 1 \<and> icc img' = [1, 2, 3]"
proof -
  let ?w = "avifJPEGWrite ex_library False ''out.jpg'' (ex_premultiplied\<lparr>icc := [1, 2, 3]\<rparr>) 90
       AVIF_CHROMA_UPSAMPLING_AUTOMATIC ex_world"
  let ?r = "avifJPEGRead ex_library stream_decoder ''out.jpg'' ex_image AVIF_PIXEL_FORMAT_YUV444 8
       (snd (the ?w))"
  have a: "?w \<noteq> None" by code_simp
  have b: "fst (the ?w)" by code_simp
  have c: "?r \<noteq> None" by code_simp
  have d: "fst (the ?r)" by code_simp
  from a b obtain w1 where w: "?w = Some (True, w1)"
    by (cases ?w) auto
  from c d w obtain img' w2 where
    r: "avifJPEGRead ex_library stream_decoder ''out.jpg'' ex_image AVIF_PIXEL_FORMAT_YUV444 8 w1
          = Some (True, img', w2)"
    by (cases ?r) auto
  have e: "avifImage.width (ex_premultiplied\<lparr>icc := [1, 2, 3]\<rparr>) = 2"
    "avifImage.height (ex_premultiplied\<lparr>icc := [1, 2, 3]\<rparr>) = 1"
    by code_simp+
  from avifJPEGWrite_avifJPEGRead_round_trip [OF w r] w r e show ?thesis
    by simp
qed

text \<open>
  The claim as the spec states it, for every non-empty profile, fails for a profile of
  \<open>2 ^ 32\<close> bytes or more: line 200 converts \<^verbatim>\<open>avif->icc.size\<close> to \<^verbatim>\<open>unsigned int\<close>, so of a
  profile of \<open>2 ^ 32 + 1\<close> bytes only the first byte is embedded, and that byte is the
  profile of the decoded image. Apart from the profile the image plays no part in what
  the steps of \<^verbatim>\<open>avifJPEGWrite\<close> do with the example library.
\<close>

lemma steps_icc:
  "request_rgb (img\<lparr>icc := bs\<rparr>) = request_rgb img"
  "convert_to_rgb ex_library (img\<lparr>icc := bs\<rparr>) = convert_to_rgb ex_library img"
  "alpha_fallback lib ext (img\<lparr>icc := bs\<rparr>) = alpha_fallback lib ext img"
  "configure ext (img\<lparr>icc := bs\<rparr>) = configure ext img"
  "pump_rows ext (img\<lparr>icc := bs\<rparr>) = pump_rows ext img"
  by (simp_all add: fun_eq_iff request_rgb_def avifRGBImageSetDefaults_def convert_to_rgb_def
      ex_library_def alpha_fallback_def configure_def pump_rows_def Let_def
      split: option.splits)

lemma embed_icc_long:
  "embed_icc (img\<lparr>icc := replicate 4294967296 0 @ [1]\<rparr>) = embed_icc (img\<lparr>icc := [0]\<rparr>)"
  by (simp add: fun_eq_iff embed_icc_def write_icc_profile_def)

lemma avifJPEGWrite_long:
  "avifJPEGWrite ex_library ext name (img\<lparr>icc := replicate 4294967296 0 @ [1]\<rparr>) q cu w =
   avifJPEGWrite ex_library ext name (img\<lparr>icc := [0]\<rparr>) q cu w"
  by (simp add: avifJPEGWrite_def avifJPEGWrite_body_def conversion_steps_def output_steps_def
      steps_icc embed_icc_long)

theorem avifJPEGWrite_truncates_long_profile:
  "\<exists>w1 img' w2.
     avifJPEGWrite ex_library False ''out.jpg''
       (ex_premultiplied\<lparr>icc := replicate 4294967296 0 @ [1]\<rparr>) 90
       AVIF_CHROMA_UPSAMPLING_AUTOMATIC ex_world = Some (True, w1) \<and>
     avifJPEGRead ex_library stream_decoder ''out.jpg'' ex_image AVIF_PIXEL_FORMAT_YUV444 8 w1
       = Some (True, img', w2) \<and>
     icc img' = [0] \<and>
     length (icc (ex_premultiplied\<lparr>icc := replicate 4294967296 0 @ [1]\<rparr>)) = 4294967297"
proof -
  let ?w = "avifJPEGWrite ex_library False ''out.jpg'' (ex_premultiplied\<lparr>icc := [0]\<rparr>) 90
       AVIF_CHROMA_UPSAMPLING_AUTOMATIC ex_world"
  let ?r = "avifJPEGRead ex_library stream_decoder ''out.jpg'' ex_image AVIF_PIXEL_FORMAT_YUV444 8
       (snd (the ?w))"
  have a: "?w \<noteq> None" by code_simp
  have b: "fst (the ?w)" by code_simp
  have c: "?r \<noteq> None" by code_simp
  have d: "fst (the ?r)" by code_simp
  have e: "icc (fst (snd (the ?r))) = [0]" by code_simp
  from a b obtain w1 where w: "?w = Some (True, w1)"
    by (cases ?w) auto
  from c d e w obtain img' w2 where
    r: "avifJPEGRead ex_library stream_decoder ''out.jpg'' ex_image AVIF_PIXEL_FORMAT_YUV444 8 w1
          = Some (True, img', w2)" "icc img' = [0]"
    by (cases ?r) auto
  from w r show ?thesis
    by (simp add: avifJPEGWrite_long)
qed

end
